theory Spec2Isabelle
  imports Complex_Main
begin

section \<open>Conventions of the embedding\<close>

text \<open>
  The development embeds \<^verbatim>\<open>libpriqueue.c\<close> and \<^verbatim>\<open>libscheduler.c\<close>.

  \<^item> A C \<^verbatim>\<open>int\<close> is a HOL \<open>int\<close>. Signed overflow is undefined behaviour in C and is
    outside the model; every statement below is about runs whose numbers stay in range.
  \<^item> A C \<^verbatim>\<open>float\<close> is an IEEE 754 binary32 number. Every conversion from \<^verbatim>\<open>int\<close> and
    every \<^verbatim>\<open>+\<close>, \<^verbatim>\<open>-\<close> and \<^verbatim>\<open>/\<close> on it is rounded to binary32 at once, to the nearest
    value with ties to the even mantissa: the default rounding mode, with
    \<^verbatim>\<open>FLT_EVAL_METHOD\<close> 0. A division by zero gives an infinity or NaN, as IEEE 754
    has it.
  \<^item> A pointer is an address (a natural number) or \<^verbatim>\<open>NULL\<close> (\<open>None\<close>). The blocks
    returned by \<^verbatim>\<open>malloc\<close> for jobs form a list indexed by address; \<^verbatim>\<open>free\<close> turns
    the entry into \<open>None\<close>, and an address is never handed out twice.
  \<^item> Every access that C leaves undefined (a \<^verbatim>\<open>NULL\<close> or dangling pointer followed, an
    uninitialised pointer followed, an array index out of range) is a result \<open>Inl e\<close>.
  \<^item> The singly linked list of a queue is the HOL list of the \<^verbatim>\<open>data\<close> pointers of its
    nodes, from \<^verbatim>\<open>head\<close> on; the \<^verbatim>\<open>size\<close> field is kept beside it, as the code
    keeps it.
\<close>

datatype error = NullPointer | UseAfterFree | WildPointer | Uninitialised | OutOfBounds

section \<open>libpriqueue\<close>

record 'a priqueue_t =
  qsize :: int
  qhead :: "'a list"

text \<open>
  The comparator \<^verbatim>\<open>q->comp\<close> is a C function that may read global memory (the
  scheduler's does), so the model passes it to \<open>priqueue_offer\<close>, the one operation that
  calls it, in the form it has at the moment of the call.
\<close>

definition priqueue_init :: "'a priqueue_t" where
  "priqueue_init = \<lparr>qsize = 0, qhead = []\<rparr>"

definition priqueue_size :: "'a priqueue_t \<Rightarrow> int" where
  "priqueue_size q = qsize q"

text \<open>
  The loop of \<^verbatim>\<open>priqueue_offer\<close>: \<open>c\<close> is the data of \<^verbatim>\<open>cNode\<close>, the list argument
  is the chain from \<^verbatim>\<open>cNode->next\<close> on, \<open>n\<close> is the size field. The result is the
  chain from \<^verbatim>\<open>cNode\<close> on after the insertion together with the value returned, or
  \<open>None\<close> when the loop ends without inserting.
\<close>

fun offer_loop ::
  "('a \<Rightarrow> 'a \<Rightarrow> error + int) \<Rightarrow> 'a \<Rightarrow> int \<Rightarrow> 'a \<Rightarrow> 'a list \<Rightarrow> int \<Rightarrow> error + ('a list \<times> int) option"
where
  "offer_loop cmp x n c [] i = (if i < n then Inr (Some ([c, x], i)) else Inr None)"
| "offer_loop cmp x n c (d # rest) i =
     (if i < n then
        (case cmp x d of
           Inl e \<Rightarrow> Inl e
         | Inr r \<Rightarrow>
             if r < 0 then Inr (Some (c # x # d # rest, i))
             else (case offer_loop cmp x n d rest (i + 1) of
                     Inl e \<Rightarrow> Inl e
                   | Inr None \<Rightarrow> Inr None
                   | Inr (Some (ys, k)) \<Rightarrow> Inr (Some (c # ys, k))))
      else Inr None)"

definition priqueue_offer ::
  "('a \<Rightarrow> 'a \<Rightarrow> error + int) \<Rightarrow> 'a priqueue_t \<Rightarrow> 'a option \<Rightarrow> error + (int \<times> 'a priqueue_t)"
where
  "priqueue_offer cmp q ptr =
     (case ptr of
        None \<Rightarrow> Inr (- 1, q)
      | Some x \<Rightarrow>
          (case qhead q of
             [] \<Rightarrow> Inr (0, q\<lparr>qhead := [x], qsize := qsize q + 1\<rparr>)
           | h # rest \<Rightarrow>
               (case cmp x h of
                  Inl e \<Rightarrow> Inl e
                | Inr r \<Rightarrow>
                    if r < 0 then Inr (0, q\<lparr>qhead := x # h # rest, qsize := qsize q + 1\<rparr>)
                    else (case offer_loop cmp x (priqueue_size q) h rest 0 of
                            Inl e \<Rightarrow> Inl e
                          | Inr None \<Rightarrow> Inr (- 1, q)
                          | Inr (Some (ys, k)) \<Rightarrow>
                              Inr (k, q\<lparr>qhead := ys, qsize := qsize q + 1\<rparr>)))))"

definition priqueue_peek :: "'a priqueue_t \<Rightarrow> error + 'a option" where
  "priqueue_peek q =
     (if priqueue_size q = 0 then Inr None
      else (case qhead q of [] \<Rightarrow> Inl NullPointer | x # _ \<Rightarrow> Inr (Some x)))"

definition priqueue_poll :: "'a priqueue_t \<Rightarrow> error + ('a option \<times> 'a priqueue_t)" where
  "priqueue_poll q =
     (if priqueue_size q = 0 then Inr (None, q)
      else (case qhead q of
              [] \<Rightarrow> Inl NullPointer
            | x # rest \<Rightarrow> Inr (Some x, q\<lparr>qhead := rest, qsize := qsize q - 1\<rparr>)))"

text \<open>\<open>node_at xs k\<close> follows \<^verbatim>\<open>cNode = cNode->next\<close> \<open>k\<close> times from the node whose chain
  is \<open>xs\<close> (\<open>[]\<close> is \<^verbatim>\<open>NULL\<close>).\<close>

fun node_at :: "'a list \<Rightarrow> nat \<Rightarrow> error + 'a list" where
  "node_at xs 0 = Inr xs"
| "node_at [] (Suc k) = Inl NullPointer"
| "node_at (x # xs) (Suc k) = node_at xs k"

definition priqueue_at :: "'a priqueue_t \<Rightarrow> int \<Rightarrow> error + 'a option" where
  "priqueue_at q index =
     (if index > priqueue_size q \<or> index < 0 then Inr None
      else (case node_at (qhead q) (nat index) of
              Inl e \<Rightarrow> Inl e
            | Inr [] \<Rightarrow> Inl NullPointer
            | Inr (x # _) \<Rightarrow> Inr (Some x)))"

text \<open>\<open>remove_after xs k\<close>: from the node whose chain is \<open>xs\<close>, walk \<open>k\<close> links, then
  unlink the node after it and return its data and the new chain.\<close>

fun remove_after :: "'a list \<Rightarrow> nat \<Rightarrow> error + ('a \<times> 'a list)" where
  "remove_after [] k = Inl NullPointer"
| "remove_after [c] 0 = Inl NullPointer"
| "remove_after (c # r # rs) 0 = Inr (r, c # rs)"
| "remove_after (c # rest) (Suc k) =
     (case remove_after rest k of
        Inl e \<Rightarrow> Inl e
      | Inr (d, ys) \<Rightarrow> Inr (d, c # ys))"

definition priqueue_remove_at :: "'a priqueue_t \<Rightarrow> int \<Rightarrow> error + ('a option \<times> 'a priqueue_t)" where
  "priqueue_remove_at q index =
     (if index > priqueue_size q \<or> index < 0 then Inr (None, q)
      else if index = 0 then
        (case qhead q of
           [] \<Rightarrow> Inl NullPointer
         | c # rest \<Rightarrow> Inr (Some c, q\<lparr>qhead := rest, qsize := qsize q - 1\<rparr>))
      else
        (case remove_after (qhead q) (nat (index - 1)) of
           Inl e \<Rightarrow> Inl e
         | Inr (d, ys) \<Rightarrow> Inr (Some d, q\<lparr>qhead := ys, qsize := qsize q - 1\<rparr>)))"

section \<open>Single-precision arithmetic\<close>

text \<open>
  The values of a \<^verbatim>\<open>float\<close>: a finite number (\<open>Finite 0\<close> is \<open>+0\<close>), \<open>-0\<close>, an infinity
  (\<open>Infinity True\<close> is the negative one) and NaN.
\<close>

datatype float = Finite real | Minus_zero | Infinity bool | NaN

text \<open>
  Around a real \<open>r\<close> the binary32 numbers are the multiples of \<^verbatim>\<open>2^e\<close>, where \<open>e\<close> is
  the least exponent from -149 on with \<^verbatim>\<open>|r| < 2^24 * 2^e\<close>: a mantissa has 24 bits, and
  -149 is the exponent of the last bit of a subnormal number. \<open>quantum r (- 149)\<close> is that
  exponent.
\<close>

function quantum :: "real \<Rightarrow> int \<Rightarrow> int" where
  "quantum r e = (if 2 ^ 24 * 2 powi e \<le> \<bar>r\<bar> then quantum r (e + 1) else e)"
  by pat_completeness auto

termination
proof (relation "measure (\<lambda>(r, e). nat \<lceil>\<bar>r\<bar> / 2 powi e\<rceil>)")
  show "wf (measure (\<lambda>(r, e). nat \<lceil>\<bar>r\<bar> / 2 powi e\<rceil>))" by simp
next
  fix r :: real and e :: int
  assume a: "2 ^ 24 * 2 powi e \<le> \<bar>r\<bar>"
  define y where "y = \<bar>r\<bar> / 2 powi e"
  have p: "(0::real) < 2 powi e" by simp
  from a p have y: "2 ^ 24 \<le> y" by (simp add: y_def pos_le_divide_eq)
  have h: "\<bar>r\<bar> / 2 powi (e + 1) = y / 2" by (simp add: y_def power_int_add)
  from y have "y / 2 \<le> y - 1" by simp
  then have "\<lceil>y / 2\<rceil> \<le> \<lceil>y - 1\<rceil>" by (rule ceiling_mono)
  then have "\<lceil>y / 2\<rceil> < \<lceil>y\<rceil>" by simp
  moreover from y have "0 < \<lceil>y\<rceil>" by simp
  ultimately show "((r, e + 1), (r, e)) \<in> measure (\<lambda>(r, e). nat \<lceil>\<bar>r\<bar> / 2 powi e\<rceil>)"
    by (simp add: h y_def[symmetric])
qed

text \<open>The nearest integer, the even one of the two when \<open>x\<close> lies half way.\<close>

definition round_even :: "real \<Rightarrow> int" where
  "round_even x =
     (let n = \<lfloor>x\<rfloor>; d = x - of_int n
      in if d < 1 / 2 then n else if 1 / 2 < d then n + 1 else if even n then n else n + 1)"

text \<open>Rounding to nearest, ties to even, with the exponent unbounded above.\<close>

definition rne :: "real \<Rightarrow> real" where
  "rne r = (let e = quantum r (- 149) in of_int (round_even (r / 2 powi e)) * 2 powi e)"

definition float_zero :: "bool \<Rightarrow> float" where
  "float_zero neg = (if neg then Minus_zero else Finite 0)"

text \<open>
  The binary32 result for the exact value \<open>r\<close>: an infinity when the rounded magnitude
  reaches \<^verbatim>\<open>2^128\<close>, and a zero with the sign of \<open>r\<close> when it underflows to nothing.
\<close>

definition round32 :: "real \<Rightarrow> float" where
  "round32 r =
     (let v = rne r
      in if 2 ^ 128 \<le> \<bar>v\<bar> then Infinity (r < 0)
         else if v = 0 then float_zero (r < 0)
         else Finite v)"

text \<open>The conversion \<^verbatim>\<open>(float)i\<close>.\<close>

definition float_of_int :: "int \<Rightarrow> float" where
  "float_of_int i = round32 (of_int i)"

fun float_val :: "float \<Rightarrow> real" where
  "float_val (Finite x) = x"
| "float_val Minus_zero = 0"
| "float_val (Infinity s) = 0"
| "float_val NaN = 0"

fun float_negative :: "float \<Rightarrow> bool" where
  "float_negative (Finite x) = (x < 0)"
| "float_negative Minus_zero = True"
| "float_negative (Infinity s) = s"
| "float_negative NaN = False"

fun float_minus :: "float \<Rightarrow> float" where
  "float_minus (Finite x) = (if x = 0 then Minus_zero else Finite (- x))"
| "float_minus Minus_zero = Finite 0"
| "float_minus (Infinity s) = Infinity (\<not> s)"
| "float_minus NaN = NaN"

text \<open>
  \<^verbatim>\<open>a + b\<close>. An exact sum of 0 is \<open>+0\<close>, except that \<open>-0 + -0\<close> is \<open>-0\<close>.
\<close>

fun float_add :: "float \<Rightarrow> float \<Rightarrow> float" where
  "float_add NaN b = NaN"
| "float_add a NaN = NaN"
| "float_add (Infinity s) (Infinity t) = (if s = t then Infinity s else NaN)"
| "float_add (Infinity s) b = Infinity s"
| "float_add a (Infinity t) = Infinity t"
| "float_add Minus_zero Minus_zero = Minus_zero"
| "float_add a b = (let r = float_val a + float_val b in if r = 0 then Finite 0 else round32 r)"

definition float_sub :: "float \<Rightarrow> float \<Rightarrow> float" where
  "float_sub a b = float_add a (float_minus b)"

text \<open>\<^verbatim>\<open>a / b\<close>. The sign of a zero or an infinity is the product of the signs.\<close>

fun float_div :: "float \<Rightarrow> float \<Rightarrow> float" where
  "float_div NaN b = NaN"
| "float_div a NaN = NaN"
| "float_div (Infinity s) (Infinity t) = NaN"
| "float_div (Infinity s) b = Infinity (s \<noteq> float_negative b)"
| "float_div a (Infinity t) = float_zero (float_negative a \<noteq> t)"
| "float_div a b =
     (if float_val b = 0
      then (if float_val a = 0 then NaN else Infinity (float_negative a \<noteq> float_negative b))
      else if float_val a = 0 then float_zero (float_negative a \<noteq> float_negative b)
      else round32 (float_val a / float_val b))"

text \<open>The test \<^verbatim>\<open>a != 0.0\<close>: false for both zeros, true for NaN.\<close>

fun float_nonzero :: "float \<Rightarrow> bool" where
  "float_nonzero (Finite x) = (x \<noteq> 0)"
| "float_nonzero Minus_zero = False"
| "float_nonzero (Infinity s) = True"
| "float_nonzero NaN = True"

section \<open>libscheduler: data\<close>

datatype scheme_t = FCFS | SJF | PSJF | PRI | PPRI | RR

record job_t =
  t_arrival :: int
  t_total :: int
  t_remaining :: int
  t_waiting :: int
  t_updated :: int
  t_started :: int
  t_end :: int
  job_id :: int
  priority :: int
  j_core :: int

type_synonym addr = nat

text \<open>
  The globals of \<^verbatim>\<open>libscheduler.c\<close>, and the job blocks. \<open>c_job\<close> is the array
  \<^verbatim>\<open>c_cores->c_job\<close>; \<^verbatim>\<open>c_cores->n_cores\<close> is written once, with the length of that
  array, so it is read off the list.
\<close>

record sched =
  heap :: "job_t option list"
  jobs :: "addr priqueue_t"
  c_job :: "addr option list"
  t_scheme :: scheme_t
  c_time :: int
  n_jobs :: int
  t_response :: float
  t_wait :: float
  t_turnaround :: float

definition n_cores :: "sched \<Rightarrow> int" where
  "n_cores s = int (length (c_job s))"

text \<open>Following a job pointer.\<close>

definition deref :: "job_t option list \<Rightarrow> addr \<Rightarrow> error + job_t" where
  "deref h a =
     (if a < length h then (case h ! a of None \<Rightarrow> Inl UseAfterFree | Some j \<Rightarrow> Inr j)
      else Inl WildPointer)"

definition deref_ptr :: "job_t option list \<Rightarrow> addr option \<Rightarrow> error + job_t" where
  "deref_ptr h p = (case p of None \<Rightarrow> Inl NullPointer | Some a \<Rightarrow> deref h a)"

text \<open>Reading \<^verbatim>\<open>c_cores->c_job[i]\<close> and following it.\<close>

definition core_slot :: "addr option list \<Rightarrow> int \<Rightarrow> error + addr option" where
  "core_slot cs i = (if 0 \<le> i \<and> i < int (length cs) then Inr (cs ! nat i) else Inl OutOfBounds)"

definition core_job :: "job_t option list \<Rightarrow> addr option list \<Rightarrow> int \<Rightarrow> error + job_t" where
  "core_job h cs i = (case core_slot cs i of Inl e \<Rightarrow> Inl e | Inr p \<Rightarrow> deref_ptr h p)"

section \<open>libscheduler: operations\<close>

text \<open>\<^verbatim>\<open>n_jobs\<close> has static storage and no initialiser: it is 0 when the program starts,
  and \<^verbatim>\<open>scheduler_start_up\<close>, called once and first, does not assign it.\<close>

definition scheduler_start_up :: "int \<Rightarrow> scheme_t \<Rightarrow> sched" where
  "scheduler_start_up cores scheme =
     \<lparr>heap = [], jobs = priqueue_init, c_job = replicate (nat cores) None,
      t_scheme = scheme, c_time = 0, n_jobs = 0,
      t_response = Finite 0, t_wait = Finite 0, t_turnaround = Finite 0\<rparr>"

definition comparer :: "scheme_t \<Rightarrow> job_t option list \<Rightarrow> addr option \<Rightarrow> addr option \<Rightarrow> error + int" where
  "comparer scheme h p1 p2 =
     (case p2 of
        None \<Rightarrow> Inr (- 1)
      | Some a2 \<Rightarrow>
          (case scheme of
             FCFS \<Rightarrow> Inr 1
           | SJF \<Rightarrow>
               (case deref_ptr h p1 of Inl e \<Rightarrow> Inl e | Inr job_1 \<Rightarrow>
                (case deref h a2 of Inl e \<Rightarrow> Inl e | Inr job_2 \<Rightarrow>
                   if t_total job_1 < t_remaining job_2 \<and> t_started job_2 = - 1 then Inr (- 1)
                   else Inr 1))
           | PSJF \<Rightarrow>
               (case deref_ptr h p1 of Inl e \<Rightarrow> Inl e | Inr job_1 \<Rightarrow>
                (case deref h a2 of Inl e \<Rightarrow> Inl e | Inr job_2 \<Rightarrow>
                   if t_remaining job_1 < t_remaining job_2 then Inr (- 1) else Inr 1))
           | PRI \<Rightarrow>
               (case deref_ptr h p1 of Inl e \<Rightarrow> Inl e | Inr job_1 \<Rightarrow>
                (case deref h a2 of Inl e \<Rightarrow> Inl e | Inr job_2 \<Rightarrow>
                   if priority job_1 < priority job_2 \<and> t_started job_2 = - 1 then Inr (- 1)
                   else Inr 1))
           | PPRI \<Rightarrow>
               (case deref_ptr h p1 of Inl e \<Rightarrow> Inl e | Inr job_1 \<Rightarrow>
                (case deref h a2 of Inl e \<Rightarrow> Inl e | Inr job_2 \<Rightarrow>
                   if priority job_1 < priority job_2 then Inr (- 1) else Inr 1))
           | RR \<Rightarrow> Inr 1))"

text \<open>The comparator as the job queue calls it: on the data pointers of two nodes.\<close>

definition job_comp :: "sched \<Rightarrow> addr \<Rightarrow> addr \<Rightarrow> error + int" where
  "job_comp s a b = comparer (t_scheme s) (heap s) (Some a) (Some b)"

text \<open>The body of the loop of \<^verbatim>\<open>increment_timestep\<close> for one running job.\<close>

definition advance_job :: "int \<Rightarrow> job_t \<Rightarrow> job_t" where
  "advance_job now j =
     (if t_started j = - 1 \<and> t_updated j \<noteq> now then j\<lparr>t_started := t_updated j\<rparr>
      else j\<lparr>t_remaining := t_remaining j - (now - t_updated j), t_updated := now\<rparr>)"

fun advance_cores :: "int \<Rightarrow> addr option list \<Rightarrow> job_t option list \<Rightarrow> error + job_t option list" where
  "advance_cores now [] h = Inr h"
| "advance_cores now (None # cs) h = advance_cores now cs h"
| "advance_cores now (Some a # cs) h =
     (case deref h a of
        Inl e \<Rightarrow> Inl e
      | Inr j \<Rightarrow> advance_cores now cs (h[a := Some (advance_job now j)]))"

definition increment_timestep :: "sched \<Rightarrow> error + sched" where
  "increment_timestep s =
     (case advance_cores (c_time s) (c_job s) (heap s) of
        Inl e \<Rightarrow> Inl e
      | Inr h \<Rightarrow> Inr (s\<lparr>heap := h\<rparr>))"

text \<open>The search for a free core: the index at which the first loop of
  \<^verbatim>\<open>scheduler_new_job\<close> stops.\<close>

fun free_core :: "addr option list \<Rightarrow> int \<Rightarrow> int" where
  "free_core [] i = i"
| "free_core (None # cs) i = i"
| "free_core (Some a # cs) i = free_core cs (i + 1)"

text \<open>The PSJF scan: the list argument is the part of the core array from index \<open>i\<close> on;
  the result is \<^verbatim>\<open>coretochange\<close>.\<close>

fun psjf_scan :: "job_t option list \<Rightarrow> int \<Rightarrow> addr option list \<Rightarrow> int \<Rightarrow> int \<Rightarrow> int \<Rightarrow> error + int" where
  "psjf_scan h rmn [] i coretochange corejoblength = Inr coretochange"
| "psjf_scan h rmn (c # cs) i coretochange corejoblength =
     (case deref_ptr h c of
        Inl e \<Rightarrow> Inl e
      | Inr cj \<Rightarrow>
          if t_remaining cj > rmn \<and> t_remaining cj > corejoblength
          then psjf_scan h rmn cs (i + 1) i (t_remaining cj)
          else psjf_scan h rmn cs (i + 1) coretochange corejoblength)"

text \<open>The PPRI scan; \<open>cores\<close> is the whole array, read at \<^verbatim>\<open>coretochange\<close> on a tie.\<close>

fun ppri_scan ::
  "job_t option list \<Rightarrow> addr option list \<Rightarrow> int \<Rightarrow> addr option list \<Rightarrow> int \<Rightarrow> int \<Rightarrow> int \<Rightarrow> error + int"
where
  "ppri_scan h cores prio [] i coretochange corepriority = Inr coretochange"
| "ppri_scan h cores prio (c # cs) i coretochange corepriority =
     (case deref_ptr h c of
        Inl e \<Rightarrow> Inl e
      | Inr cj \<Rightarrow>
          if priority cj > prio then
            (if priority cj > corepriority
             then ppri_scan h cores prio cs (i + 1) i (priority cj)
             else if priority cj = corepriority then
               (case core_job h cores coretochange of
                  Inl e \<Rightarrow> Inl e
                | Inr oj \<Rightarrow>
                    if t_arrival cj > t_arrival oj
                    then ppri_scan h cores prio cs (i + 1) i corepriority
                    else ppri_scan h cores prio cs (i + 1) coretochange corepriority)
             else ppri_scan h cores prio cs (i + 1) coretochange corepriority)
          else ppri_scan h cores prio cs (i + 1) coretochange corepriority)"

text \<open>The fields a job gets when it is put on core \<open>i\<close> at its arrival.\<close>

definition start_now :: "int \<Rightarrow> int \<Rightarrow> job_t \<Rightarrow> job_t" where
  "start_now now i j = j\<lparr>t_waiting := 0, t_started := now, t_updated := now, j_core := i\<rparr>"

text \<open>What the preemption does to the job that loses its core.\<close>

definition evict :: "int \<Rightarrow> job_t \<Rightarrow> job_t" where
  "evict now v =
     (let v1 = v\<lparr>j_core := - 1, t_updated := now\<rparr>
      in if t_started v1 = now then v1\<lparr>t_started := - 1, t_updated := - 1\<rparr> else v1)"

text \<open>\<^verbatim>\<open>priqueue_offer(jobs, job)\<close> with the scheduler's comparator, the result dropped.\<close>

definition enqueue :: "sched \<Rightarrow> addr \<Rightarrow> error + sched" where
  "enqueue s a =
     (case priqueue_offer (job_comp s) (jobs s) (Some a) of
        Inl e \<Rightarrow> Inl e
      | Inr (k, q) \<Rightarrow> Inr (s\<lparr>jobs := q\<rparr>))"

text \<open>
  The block of a new job. \<open>blk\<close> is the content of the block as \<^verbatim>\<open>malloc\<close> returns
  it: \<^verbatim>\<open>scheduler_new_job\<close> assigns eight of the ten fields and leaves
  \<^verbatim>\<open>t_waiting\<close> and \<^verbatim>\<open>t_end\<close> as it finds them.
\<close>

definition new_block :: "job_t \<Rightarrow> int \<Rightarrow> int \<Rightarrow> int \<Rightarrow> int \<Rightarrow> job_t" where
  "new_block blk job_number time running_time prio =
     blk\<lparr>t_total := running_time, t_remaining := running_time, t_arrival := time,
         job_id := job_number, priority := prio, t_started := - 1,
         t_updated := - 1, j_core := - 1\<rparr>"

text \<open>The branch for busy cores: \<^verbatim>\<open>coretochange\<close> after the scan of the scheme, for the
  new job \<open>j\<close>.\<close>

definition choose_victim :: "sched \<Rightarrow> job_t \<Rightarrow> error + int" where
  "choose_victim s j =
     (if t_scheme s = PSJF
      then psjf_scan (heap s) (t_remaining j) (c_job s) 0 (- 1) (- 1)
      else if t_scheme s = PPRI
      then ppri_scan (heap s) (c_job s) (priority j) (c_job s) 0 (- 1) (- 1)
      else Inr (- 1))"

definition scheduler_new_job :: "job_t \<Rightarrow> int \<Rightarrow> int \<Rightarrow> int \<Rightarrow> int \<Rightarrow> sched \<Rightarrow> error + (int \<times> sched)" where
  "scheduler_new_job blk job_number time running_time prio s =
     (let job = length (heap s);
          s1 = s\<lparr>heap := heap s @ [Some (new_block blk job_number time running_time prio)],
                 c_time := time, n_jobs := n_jobs s + 1\<rparr>
      in case increment_timestep s1 of
           Inl e \<Rightarrow> Inl e
         | Inr s2 \<Rightarrow>
             (case deref (heap s2) job of
                Inl e \<Rightarrow> Inl e
              | Inr j \<Rightarrow>
                  (let i = free_core (c_job s2) 0 in
                   if i < n_cores s2 then
                     (case enqueue (s2\<lparr>heap := (heap s2)[job := Some (start_now (c_time s2) i j)],
                                       c_job := (c_job s2)[nat i := Some job]\<rparr>) job of
                        Inl e \<Rightarrow> Inl e
                      | Inr s3 \<Rightarrow> Inr (i, s3))
                   else
                     (case choose_victim s2 j of
                        Inl e \<Rightarrow> Inl e
                      | Inr coretochange \<Rightarrow>
                          if coretochange \<noteq> - 1 then
                            (let h3 = (heap s2)[job := Some (start_now (c_time s2) coretochange j)]
                             in case core_slot (c_job s2) coretochange of
                                  Inl e \<Rightarrow> Inl e
                                | Inr None \<Rightarrow> Inl NullPointer
                                | Inr (Some va) \<Rightarrow>
                                    (case deref h3 va of
                                       Inl e \<Rightarrow> Inl e
                                     | Inr v \<Rightarrow>
                                         (case enqueue
                                                 (s2\<lparr>heap := h3[va := Some (evict (c_time s2) v)],
                                                     c_job := (c_job s2)[nat coretochange := Some job]\<rparr>)
                                                 job of
                                            Inl e \<Rightarrow> Inl e
                                          | Inr s3 \<Rightarrow> Inr (coretochange, s3))))
                          else
                            (case enqueue s2 job of
                               Inl e \<Rightarrow> Inl e
                             | Inr s3 \<Rightarrow> Inr (- 1, s3))))))"

text \<open>
  The first loop of \<^verbatim>\<open>scheduler_job_finished\<close>. \<open>jf\<close> is the local
  \<^verbatim>\<open>job_finished\<close>: \<open>None\<close> while nothing has been assigned to it, \<open>Some p\<close> once it
  holds the pointer \<open>p\<close>.
\<close>

function finished_search ::
  "job_t option list \<Rightarrow> addr priqueue_t \<Rightarrow> int \<Rightarrow> int \<Rightarrow> addr option option
     \<Rightarrow> error + (addr option option \<times> addr priqueue_t)"
where
  "finished_search h q job_number i jf =
     (if i < priqueue_size q then
        (case priqueue_at q i of
           Inl e \<Rightarrow> Inl e
         | Inr p \<Rightarrow>
             (case deref_ptr h p of
                Inl e \<Rightarrow> Inl e
              | Inr j \<Rightarrow>
                  if job_id j = job_number then
                    (case priqueue_remove_at q i of
                       Inl e \<Rightarrow> Inl e
                     | Inr (p', q') \<Rightarrow> Inr (Some p', q'))
                  else finished_search h q job_number (i + 1) (Some p)))
      else Inr (jf, q))"
  by pat_completeness auto
termination
  by (relation "measure (\<lambda>(h, q, job_number, i, jf). nat (priqueue_size q - i))") auto

text \<open>The second loop of \<^verbatim>\<open>scheduler_job_finished\<close>: the index it stops at and
  \<^verbatim>\<open>next_job\<close>.\<close>

function next_search ::
  "job_t option list \<Rightarrow> addr priqueue_t \<Rightarrow> int \<Rightarrow> addr option \<Rightarrow> error + (int \<times> addr option)"
where
  "next_search h q i next_job =
     (if i < priqueue_size q then
        (case priqueue_at q i of
           Inl e \<Rightarrow> Inl e
         | Inr None \<Rightarrow> next_search h q (i + 1) None
         | Inr (Some a) \<Rightarrow>
             (case deref h a of
                Inl e \<Rightarrow> Inl e
              | Inr j \<Rightarrow>
                  if j_core j = - 1 then Inr (i, Some a)
                  else next_search h q (i + 1) (Some a)))
      else Inr (i, next_job))"
  by pat_completeness auto
termination
  by (relation "measure (\<lambda>(h, q, i, next_job). nat (priqueue_size q - i))") auto

text \<open>The fields a queued job gets when a freed core is given to it.\<close>

definition dispatch :: "int \<Rightarrow> int \<Rightarrow> job_t \<Rightarrow> job_t" where
  "dispatch now core_id nj =
     (if t_started nj = - 1
      then nj\<lparr>t_started := now, t_updated := now, t_waiting := now - t_arrival nj\<rparr>
      else nj\<lparr>t_waiting := t_waiting nj + (now - t_updated nj), t_updated := now\<rparr>)
     \<lparr>j_core := core_id\<rparr>"

text \<open>The three sums, updated for a job that ends at \<open>tend\<close>.\<close>

definition add_stats :: "int \<Rightarrow> job_t \<Rightarrow> sched \<Rightarrow> sched" where
  "add_stats tend j s =
     s\<lparr>t_turnaround :=
         float_add (t_turnaround s) (float_sub (float_of_int tend) (float_of_int (t_arrival j))),
       t_wait := float_add (t_wait s) (float_of_int (t_waiting j)),
       t_response :=
         float_add (t_response s)
           (float_sub (float_of_int (t_started j)) (float_of_int (t_arrival j)))\<rparr>"

definition scheduler_job_finished :: "int \<Rightarrow> int \<Rightarrow> int \<Rightarrow> sched \<Rightarrow> error + (int \<times> sched)" where
  "scheduler_job_finished core_id job_number time s =
     (case increment_timestep (s\<lparr>c_time := time\<rparr>) of
        Inl e \<Rightarrow> Inl e
      | Inr s1 \<Rightarrow>
          (case finished_search (heap s1) (jobs s1) job_number 0 None of
             Inl e \<Rightarrow> Inl e
           | Inr (None, q) \<Rightarrow> Inl Uninitialised
           | Inr (Some None, q) \<Rightarrow> Inl NullPointer
           | Inr (Some (Some a), q) \<Rightarrow>
               (case deref (heap s1) a of
                  Inl e \<Rightarrow> Inl e
                | Inr j \<Rightarrow>
                    (case core_slot (c_job s1) core_id of
                       Inl e \<Rightarrow> Inl e
                     | Inr old \<Rightarrow>
                         (let s2 = (add_stats time j s1)
                                     \<lparr>jobs := q, heap := (heap s1)[a := None],
                                      c_job := (c_job s1)[nat core_id := None]\<rparr>
                          in if priqueue_size (jobs s2) = 0 then Inr (- 1, s2)
                             else
                               (case next_search (heap s2) (jobs s2) 0 None of
                                  Inl e \<Rightarrow> Inl e
                                | Inr (i, next_job) \<Rightarrow>
                                    if i \<ge> priqueue_size (jobs s2) then Inr (- 1, s2)
                                    else
                                      (case next_job of
                                         None \<Rightarrow> Inr (- 1, s2)
                                       | Some b \<Rightarrow>
                                           (case deref (heap s2) b of
                                              Inl e \<Rightarrow> Inl e
                                            | Inr nj \<Rightarrow>
                                                Inr (job_id nj,
                                                     s2\<lparr>heap := (heap s2)[b := Some (dispatch (c_time s2) core_id nj)],
                                                        c_job := (c_job s2)[nat core_id := Some b]\<rparr>)))))))))"

text \<open>\<^verbatim>\<open>scheduler_quantum_expired\<close>: what is done with the node at index \<open>i\<close> once its
  job is found to be the one on the core.\<close>

definition quantum_found :: "sched \<Rightarrow> int \<Rightarrow> int \<Rightarrow> error + sched" where
  "quantum_found s core_id i =
     (case priqueue_remove_at (jobs s) i of
        Inl e \<Rightarrow> Inl e
      | Inr (p, q) \<Rightarrow>
          (case deref_ptr (heap s) p of
             Inl e \<Rightarrow> Inl e
           | Inr aj \<Rightarrow>
               (case p of
                  None \<Rightarrow> Inl NullPointer
                | Some a \<Rightarrow>
                    if t_remaining aj \<noteq> 0 then
                      enqueue (s\<lparr>jobs := q,
                                 heap := (heap s)[a := Some (aj\<lparr>j_core := - 1, t_updated := c_time s\<rparr>)]\<rparr>) a
                    else
                      (case core_slot (c_job s) core_id of
                         Inl e \<Rightarrow> Inl e
                       | Inr old \<Rightarrow>
                           Inr ((add_stats (c_time s) aj s)
                                  \<lparr>jobs := q, heap := (heap s)[a := None],
                                   c_job := (c_job s)[nat core_id := None]\<rparr>)))))"

function active_search :: "sched \<Rightarrow> int \<Rightarrow> int \<Rightarrow> int \<Rightarrow> error + sched" where
  "active_search s core_id len i =
     (if i < len then
        (case priqueue_at (jobs s) i of
           Inl e \<Rightarrow> Inl e
         | Inr p \<Rightarrow>
             (case deref_ptr (heap s) p of
                Inl e \<Rightarrow> Inl e
              | Inr aj \<Rightarrow>
                  (case core_job (heap s) (c_job s) core_id of
                     Inl e \<Rightarrow> Inl e
                   | Inr cj \<Rightarrow>
                       if job_id aj = job_id cj then quantum_found s core_id i
                       else active_search s core_id len (i + 1))))
      else Inr s)"
  by pat_completeness auto
termination
  by (relation "measure (\<lambda>(s, core_id, len, i). nat (len - i))") auto

text \<open>The second loop of \<^verbatim>\<open>scheduler_quantum_expired\<close>, which returns from inside.\<close>

function quantum_next :: "sched \<Rightarrow> int \<Rightarrow> int \<Rightarrow> error + (int \<times> sched)" where
  "quantum_next s core_id i =
     (if i < priqueue_size (jobs s) then
        (case priqueue_at (jobs s) i of
           Inl e \<Rightarrow> Inl e
         | Inr None \<Rightarrow> Inl NullPointer
         | Inr (Some b) \<Rightarrow>
             (case deref (heap s) b of
                Inl e \<Rightarrow> Inl e
              | Inr nj \<Rightarrow>
                  if j_core nj = - 1 then
                    (case core_slot (c_job s) core_id of
                       Inl e \<Rightarrow> Inl e
                     | Inr old \<Rightarrow>
                         Inr (job_id nj,
                              s\<lparr>heap := (heap s)[b := Some (dispatch (c_time s) core_id nj)],
                                c_job := (c_job s)[nat core_id := Some b]\<rparr>))
                  else quantum_next s core_id (i + 1)))
      else Inr (- 1, s))"
  by pat_completeness auto
termination
  by (relation "measure (\<lambda>(s, core_id, i). nat (priqueue_size (jobs s) - i))") auto

definition scheduler_quantum_expired :: "int \<Rightarrow> int \<Rightarrow> sched \<Rightarrow> error + (int \<times> sched)" where
  "scheduler_quantum_expired core_id time s =
     (case increment_timestep (s\<lparr>c_time := time\<rparr>) of
        Inl e \<Rightarrow> Inl e
      | Inr s1 \<Rightarrow>
          (case active_search s1 core_id (priqueue_size (jobs s1)) 0 of
             Inl e \<Rightarrow> Inl e
           | Inr s2 \<Rightarrow> quantum_next s2 core_id 0))"

text \<open>The averages: \<^verbatim>\<open>n_jobs\<close> is converted to \<^verbatim>\<open>float\<close> for the division, and the literal
  \<^verbatim>\<open>0.0\<close> is returned as \<open>+0\<close>.\<close>

definition scheduler_average_waiting_time :: "sched \<Rightarrow> float" where
  "scheduler_average_waiting_time s =
     (if float_nonzero (t_wait s) then float_div (t_wait s) (float_of_int (n_jobs s))
      else Finite 0)"

definition scheduler_average_turnaround_time :: "sched \<Rightarrow> float" where
  "scheduler_average_turnaround_time s =
     (if float_nonzero (t_turnaround s) then float_div (t_turnaround s) (float_of_int (n_jobs s))
      else Finite 0)"

definition scheduler_average_response_time :: "sched \<Rightarrow> float" where
  "scheduler_average_response_time s =
     (if float_nonzero (t_response s) then float_div (t_response s) (float_of_int (n_jobs s))
      else Finite 0)"

text \<open>The three event calls, and a sequence of them made one after the other.\<close>

datatype event =
  New_job job_t int int int int
| Job_finished int int int
| Quantum_expired int int

fun step :: "event \<Rightarrow> sched \<Rightarrow> error + (int \<times> sched)" where
  "step (New_job blk job_number time running_time prio) s =
     scheduler_new_job blk job_number time running_time prio s"
| "step (Job_finished core_id job_number time) s = scheduler_job_finished core_id job_number time s"
| "step (Quantum_expired core_id time) s = scheduler_quantum_expired core_id time s"

fun run :: "event list \<Rightarrow> sched \<Rightarrow> error + sched" where
  "run [] s = Inr s"
| "run (e # es) s = (case step e s of Inl x \<Rightarrow> Inl x | Inr (r, s') \<Rightarrow> run es s')"

declare quantum.simps [simp del]
declare finished_search.simps [simp del]
declare next_search.simps [simp del]
declare active_search.simps [simp del]
declare quantum_next.simps [simp del]

section \<open>Vocabulary of the statements\<close>

text \<open>The size field of a queue counts its nodes. \<^verbatim>\<open>priqueue_init\<close> establishes this and
  every operation keeps it.\<close>

definition qinv :: "'a priqueue_t \<Rightarrow> bool" where
  "qinv q \<longleftrightarrow> qsize q = int (length (qhead q))"

text \<open>The jobs on the cores, in core order.\<close>

fun running :: "addr option list \<Rightarrow> addr list" where
  "running [] = []"
| "running (None # cs) = running cs"
| "running (Some a # cs) = a # running cs"

text \<open>What a clock advance may change in a block: the remaining time, the update time, and
  the start time of a job that has none.\<close>

definition ticked :: "job_t \<Rightarrow> job_t \<Rightarrow> bool" where
  "ticked j j' \<longleftrightarrow>
     t_arrival j' = t_arrival j \<and> t_total j' = t_total j \<and> t_waiting j' = t_waiting j \<and>
     t_end j' = t_end j \<and> job_id j' = job_id j \<and> priority j' = priority j \<and>
     j_core j' = j_core j \<and> (t_started j \<noteq> - 1 \<longrightarrow> t_started j' = t_started j)"

text \<open>The queue without its node at index \<open>k\<close>.\<close>

definition removed :: "'a priqueue_t \<Rightarrow> nat \<Rightarrow> 'a priqueue_t" where
  "removed q k = q\<lparr>qhead := take k (qhead q) @ drop (Suc k) (qhead q), qsize := qsize q - 1\<rparr>"

text \<open>Two heaps that differ by clock advances only.\<close>

definition heap_ticked :: "job_t option list \<Rightarrow> job_t option list \<Rightarrow> bool" where
  "heap_ticked h h' \<longleftrightarrow>
     length h' = length h \<and>
     (\<forall>a<length h. case h ! a of None \<Rightarrow> h' ! a = None
                                | Some j \<Rightarrow> (\<exists>j'. h' ! a = Some j' \<and> ticked j j'))"

text \<open>The events that submit a job.\<close>

definition is_new_job :: "event \<Rightarrow> bool" where
  "is_new_job e = (case e of New_job blk n time rt prio \<Rightarrow> True | _ \<Rightarrow> False)"

text \<open>A block of zeros, for the concrete runs.\<close>

definition blk0 :: job_t where
  "blk0 = \<lparr>t_arrival = 0, t_total = 0, t_remaining = 0, t_waiting = 0, t_updated = 0,
           t_started = 0, t_end = 0, job_id = 0, priority = 0, j_core = 0\<rparr>"

text \<open>
  \<open>a\<close> is what dividing the sum \<open>x\<close> by \<open>n\<close> gives in single precision: the binary32
  result for the exact quotient, and, when that result is finite, a number within half a
  unit of the last place of the exact quotient.
\<close>

definition rounded_quotient :: "float \<Rightarrow> real \<Rightarrow> nat \<Rightarrow> bool" where
  "rounded_quotient a x n \<longleftrightarrow>
     a = round32 (x / real n) \<and>
     (\<forall>v. a = Finite v \<longrightarrow>
        \<bar>v - x / real n\<bar> \<le> max (\<bar>x / real n\<bar> / 2 ^ 24) (2 powi (- 150)))"

text \<open>Core \<open>k\<close> is the one PPRI evicts among the first \<open>b\<close> cores, for a new job of priority
  \<open>prio\<close>: its job has a larger priority number than the new job, no such job on those
  cores has a larger one still, and none with the same one arrived later.\<close>

definition ppri_victim :: "job_t option list \<Rightarrow> addr option list \<Rightarrow> int \<Rightarrow> nat \<Rightarrow> nat \<Rightarrow> bool" where
  "ppri_victim h cores prio b k \<longleftrightarrow>
     k < b \<and>
     (\<exists>v. deref_ptr h (cores ! k) = Inr v \<and> prio < priority v \<and>
        (\<forall>m<b. \<forall>j. deref_ptr h (cores ! m) = Inr j \<longrightarrow> prio < priority j \<longrightarrow>
           priority j \<le> priority v \<and> (priority j = priority v \<longrightarrow> t_arrival j \<le> t_arrival v)))"

text \<open>The queue is well formed over the heap \<open>h\<close>: its size field counts its nodes, no job is
  queued twice, every queued job is live, and no two queued jobs have the same number.\<close>

definition queue_ok :: "job_t option list \<Rightarrow> addr priqueue_t \<Rightarrow> bool" where
  "queue_ok h q \<longleftrightarrow>
     qinv q \<and> distinct (qhead q) \<and> (\<forall>a\<in>set (qhead q). \<exists>j. deref h a = Inr j) \<and>
     (\<forall>a\<in>set (qhead q). \<forall>b\<in>set (qhead q). \<forall>ja jb.
        deref h a = Inr ja \<longrightarrow> deref h b = Inr jb \<longrightarrow> job_id ja = job_id jb \<longrightarrow> a = b)"

text \<open>Core slot \<open>i\<close> is empty, or holds a queued live job that records core \<open>i\<close> and has a
  start time.\<close>

definition slot_ok :: "job_t option list \<Rightarrow> addr priqueue_t \<Rightarrow> addr option list \<Rightarrow> nat \<Rightarrow> bool" where
  "slot_ok h q cs i \<longleftrightarrow>
     (\<forall>a. cs ! i = Some a \<longrightarrow>
        a \<in> set (qhead q) \<and> (\<exists>j. deref h a = Inr j \<and> j_core j = int i \<and> t_started j \<noteq> - 1))"

text \<open>The invariant, with the slot of core \<open>c\<close> left out (no slot is left out for \<open>c = -1\<close>).\<close>

definition inv_except :: "job_t option list \<Rightarrow> addr priqueue_t \<Rightarrow> addr option list \<Rightarrow> int \<Rightarrow> bool" where
  "inv_except h q cs c \<longleftrightarrow> queue_ok h q \<and> (\<forall>i<length cs. int i \<noteq> c \<longrightarrow> slot_ok h q cs i)"

definition sched_inv :: "sched \<Rightarrow> bool" where
  "sched_inv s \<longleftrightarrow> inv_except (heap s) (jobs s) (c_job s) (- 1)"

text \<open>The two halves of the consistency between the core array and the queue.\<close>

definition cores_consistent :: "sched \<Rightarrow> bool" where
  "cores_consistent s \<longleftrightarrow>
     (\<forall>i<length (c_job s). \<forall>a. c_job s ! i = Some a \<longrightarrow>
        (\<exists>j. deref (heap s) a = Inr j \<and> j_core j = int i \<and> t_started j \<noteq> - 1))"

definition unassigned_off_core :: "sched \<Rightarrow> bool" where
  "unassigned_off_core s \<longleftrightarrow>
     (\<forall>a\<in>set (qhead (jobs s)). \<forall>j. deref (heap s) a = Inr j \<longrightarrow> j_core j = - 1 \<longrightarrow>
        Some a \<notin> set (c_job s))"

text \<open>
  What the caller owes: no event carries the time -1, which the code uses for ``unset'';
  a new job has a number no queued job has; and a finished job is the one on the core
  named in the call.
\<close>

definition call_ok :: "event \<Rightarrow> sched \<Rightarrow> bool" where
  "call_ok e s =
     (case e of
        New_job blk n time rt prio \<Rightarrow>
          time \<noteq> - 1 \<and> (\<forall>a\<in>set (qhead (jobs s)). \<forall>j. deref (heap s) a = Inr j \<longrightarrow> job_id j \<noteq> n)
      | Job_finished core_id n time \<Rightarrow>
          time \<noteq> - 1 \<and> (\<exists>j. core_job (heap s) (c_job s) core_id = Inr j \<and> job_id j = n)
      | Quantum_expired core_id time \<Rightarrow> time \<noteq> - 1)"

text \<open>A sequence of calls, each within the contract and within defined behaviour.\<close>

fun run_ok :: "event list \<Rightarrow> sched \<Rightarrow> bool" where
  "run_ok [] s = True"
| "run_ok (e # es) s =
     (call_ok e s \<and> (case step e s of Inl x \<Rightarrow> False | Inr (r, s') \<Rightarrow> run_ok es s'))"

section \<open>Evaluation\<close>

text \<open>The defining equations, collected for running the model on concrete calls.\<close>

lemmas priqueue_defs =
  priqueue_offer_def priqueue_at_def priqueue_remove_at_def priqueue_size_def priqueue_init_def

lemmas sched_defs =
  scheduler_start_up_def scheduler_new_job_def scheduler_job_finished_def
  scheduler_quantum_expired_def increment_timestep_def enqueue_def job_comp_def comparer_def
  deref_def deref_ptr_def core_slot_def core_job_def n_cores_def advance_job_def start_now_def
  new_block_def choose_victim_def evict_def dispatch_def add_stats_def quantum_found_def
  finished_search.simps next_search.simps active_search.simps quantum_next.simps

lemmas float_defs =
  float_of_int_def float_sub_def round32_def rne_def round_even_def float_zero_def quantum.simps

section \<open>The ordered queue\<close>

text \<open>
  C2. \<^verbatim>\<open>priqueue_offer\<close> documents its result as the zero-based index where the item is
  stored. In the loop the item is linked in behind the node with index \<open>i\<close>, that is at
  index \<open>i + 1\<close>, and \<open>i\<close> is returned: offering 20 to the queue \<open>[10]\<close> under a
  comparator that always answers 1 stores it at index 1 and returns 0.
\<close>

theorem priqueue_offer_returns_predecessor:
  "priqueue_offer (\<lambda>a b. Inr 1) \<lparr>qsize = 1, qhead = [10 :: nat]\<rparr> (Some 20)
     = Inr (0, \<lparr>qsize = 2, qhead = [10, 20]\<rparr>)"
  by (simp add: priqueue_defs)

text \<open>
  C3. The guard of \<^verbatim>\<open>priqueue_at\<close> and \<^verbatim>\<open>priqueue_remove_at\<close> is
  \<^verbatim>\<open>index > priqueue_size(q)\<close>, so an index equal to the size passes it; the walk then
  follows a \<^verbatim>\<open>NULL\<close> link instead of returning \<^verbatim>\<open>NULL\<close>. On the queue \<open>[10]\<close> at
  index 1, and on the empty queue at index 0:
\<close>

theorem priqueue_at_size_follows_null:
  "priqueue_at \<lparr>qsize = 1, qhead = [10 :: nat]\<rparr> 1 = Inl NullPointer \<and>
   priqueue_remove_at \<lparr>qsize = 1, qhead = [10 :: nat]\<rparr> 1 = Inl NullPointer \<and>
   priqueue_at (priqueue_init :: nat priqueue_t) 0 = Inl NullPointer \<and>
   priqueue_remove_at (priqueue_init :: nat priqueue_t) 0 = Inl NullPointer"
  by (simp add: priqueue_defs)

section \<open>Scenarios\<close>

text \<open>
  C5. FCFS on one core, arrivals (id 1, t 0, run 5, pri 0) and (id 2, t 1, run 3, pri 0):
  the first arrival returns core 0, the second returns -1, and
  \<^verbatim>\<open>scheduler_job_finished(0, 1, 5)\<close> returns job id 2 and leaves job 2 (the block at
  address 1) with waiting time 4, whatever the blocks \<open>b1\<close>, \<open>b2\<close> held when allocated.
\<close>

theorem fcfs_one_core_scenario:
  "(case scheduler_new_job b1 1 0 5 0 (scheduler_start_up 1 FCFS) of
      Inl e \<Rightarrow> False
    | Inr (r1, s1) \<Rightarrow>
        (case scheduler_new_job b2 2 1 3 0 s1 of
           Inl e \<Rightarrow> False
         | Inr (r2, s2) \<Rightarrow>
             (case scheduler_job_finished 0 1 5 s2 of
                Inl e \<Rightarrow> False
              | Inr (r3, s3) \<Rightarrow>
                  r1 = 0 \<and> r2 = - 1 \<and> r3 = 2 \<and>
                  map_option job_id (heap s3 ! 1) = Some 2 \<and>
                  map_option t_waiting (heap s3 ! 1) = Some 4)))"
  by (simp add: sched_defs priqueue_defs Let_def eval_nat_numeral)

text \<open>
  C6. \<^verbatim>\<open>scheduler_job_finished\<close> has no branch for a job number that is not queued:
  after the search loop \<^verbatim>\<open>job_finished\<close> is whatever the loop left in it. On an empty
  queue that is an uninitialised pointer, which is then followed. On a non-empty queue it
  is the last queued job, which is finalised and freed in place of the missing one: under
  PPRI on one core, after arrivals 1 (pri 5), 2 (pri 3), 3 (pri 1) at times 0, 1, 2, the
  call \<^verbatim>\<open>scheduler_job_finished(0, 99, 5)\<close> returns job id 2, adds 5 to the turnaround
  sum, frees job 1 (address 0) and leaves it in the queue.
\<close>

theorem job_finished_unknown_id:
  "scheduler_job_finished 0 99 5 (scheduler_start_up 1 FCFS) = Inl Uninitialised \<and>
   (case scheduler_new_job b1 1 0 9 5 (scheduler_start_up 1 PPRI) of
      Inl e \<Rightarrow> False
    | Inr (r1, s1) \<Rightarrow>
        (case scheduler_new_job b2 2 1 9 3 s1 of
           Inl e \<Rightarrow> False
         | Inr (r2, s2) \<Rightarrow>
             (case scheduler_new_job b3 3 2 9 1 s2 of
                Inl e \<Rightarrow> False
              | Inr (r3, s3) \<Rightarrow>
                  (case scheduler_job_finished 0 99 5 s3 of
                     Inl e \<Rightarrow> False
                   | Inr (r4, s4) \<Rightarrow>
                       r4 = 2 \<and> t_turnaround s3 = Finite 0 \<and> t_turnaround s4 = Finite 5 \<and>
                       heap s4 ! 0 = None \<and> qhead (jobs s4) = [2, 1, 0]))))"
  by (simp add: sched_defs priqueue_defs float_defs Let_def eval_nat_numeral)

section \<open>Facts about the queue operations\<close>

lemma node_at_drop: "node_at xs k = (if k \<le> length xs then Inr (drop k xs) else Inl NullPointer)"
  by (induction xs k rule: node_at.induct) auto

lemma priqueue_at_nth:
  assumes "qinv q" "0 \<le> i" "i < qsize q"
  shows "priqueue_at q i = Inr (Some (qhead q ! nat i))"
proof -
  from assms have lt: "nat i < length (qhead q)" by (simp add: qinv_def)
  then have "drop (nat i) (qhead q) = (qhead q ! nat i) # drop (Suc (nat i)) (qhead q)"
    by (simp add: Cons_nth_drop_Suc)
  with assms lt show ?thesis
    by (simp add: priqueue_at_def priqueue_size_def node_at_drop)
qed

lemma remove_after_nth:
  "remove_after xs k =
     (if Suc k < length xs then Inr (xs ! Suc k, take (Suc k) xs @ drop (Suc (Suc k)) xs)
      else Inl NullPointer)"
  by (induction xs k rule: remove_after.induct) auto

lemma priqueue_remove_at_nth:
  assumes "qinv q" "0 \<le> i" "i < qsize q"
  shows "priqueue_remove_at q i =
           Inr (Some (qhead q ! nat i),
                q\<lparr>qhead := take (nat i) (qhead q) @ drop (Suc (nat i)) (qhead q),
                  qsize := qsize q - 1\<rparr>)"
proof (cases "i = 0")
  case True
  with assms show ?thesis
    by (cases "qhead q") (auto simp: priqueue_remove_at_def priqueue_size_def qinv_def)
next
  case False
  with assms have "Suc (nat (i - 1)) = nat i" "nat i < length (qhead q)"
    by (auto simp: qinv_def)
  with assms False show ?thesis
    by (simp add: priqueue_remove_at_def priqueue_size_def remove_after_nth)
qed

text \<open>The positional operations at every index: outside \<open>0..size\<close> they answer
  \<^verbatim>\<open>NULL\<close>, below the size they answer the element, and at the size itself they follow a
  \<^verbatim>\<open>NULL\<close> link.\<close>

lemma positional_out_of_range:
  "i < 0 \<or> priqueue_size q < i \<Longrightarrow>
     priqueue_at q i = Inr None \<and> priqueue_remove_at q i = Inr (None, q)"
  by (auto simp: priqueue_at_def priqueue_remove_at_def)

lemma positional_at_size:
  assumes "qinv q"
  shows "priqueue_at q (priqueue_size q) = Inl NullPointer \<and>
         priqueue_remove_at q (priqueue_size q) = Inl NullPointer"
proof -
  from assms have sz: "priqueue_size q = int (length (qhead q))"
    by (simp add: qinv_def priqueue_size_def)
  have "priqueue_at q (priqueue_size q) = Inl NullPointer"
    by (simp add: priqueue_at_def sz node_at_drop)
  moreover have "priqueue_remove_at q (priqueue_size q) = Inl NullPointer"
  proof (cases "qhead q")
    case Nil
    with sz show ?thesis by (simp add: priqueue_remove_at_def)
  next
    case (Cons x xs)
    with sz have "nat (priqueue_size q - 1) = length xs" "priqueue_size q \<noteq> 0"
      "\<not> priqueue_size q < 0" by simp_all
    with Cons show ?thesis
      by (simp add: priqueue_remove_at_def remove_after_nth)
  qed
  ultimately show ?thesis by simp
qed

text \<open>Where \<^verbatim>\<open>priqueue_offer\<close> puts the item, and what it returns: the item goes behind the
  elements \<open>ys\<close> it does not compare below and before the first element it does compare
  below; the value returned is the position only when the item lands at the front.\<close>

lemma offer_loop_shape:
  assumes "offer_loop cmp x n c rest i = Inr r" "i + int (length rest) < n"
  shows "\<exists>ys zs. r = Some (c # ys @ x # zs, i + int (length ys)) \<and> rest = ys @ zs \<and>
           (\<forall>e\<in>set ys. \<exists>v. cmp x e = Inr v \<and> \<not> v < 0) \<and>
           (zs = [] \<or> (\<exists>v. cmp x (hd zs) = Inr v \<and> v < 0))"
  using assms
proof (induction rest arbitrary: c i r)
  case Nil
  then show ?case by auto
next
  case (Cons d rest)
  from Cons.prems obtain v where v: "cmp x d = Inr v"
    by (auto split: sum.splits if_splits)
  show ?case
  proof (cases "v < 0")
    case True
    with Cons.prems v have "r = Some (c # [] @ x # d # rest, i + int (length ([]::'a list)))"
      by (auto split: if_splits)
    with True v show ?thesis by (intro exI[of _ "[]"] exI[of _ "d # rest"]) auto
  next
    case False
    with Cons.prems v obtain r' where r': "offer_loop cmp x n d rest (i + 1) = Inr r'"
      by (auto split: sum.splits if_splits)
    from Cons.prems have "(i + 1) + int (length rest) < n" by simp
    from Cons.IH[OF r' this] obtain ys zs where
      yz: "r' = Some (d # ys @ x # zs, i + 1 + int (length ys))" "rest = ys @ zs"
        "\<forall>e\<in>set ys. \<exists>v. cmp x e = Inr v \<and> \<not> v < 0"
        "zs = [] \<or> (\<exists>v. cmp x (hd zs) = Inr v \<and> v < 0)"
      by blast
    with Cons.prems v False r' have "r = Some (c # (d # ys) @ x # zs, i + int (length (d # ys)))"
      by (auto split: if_splits)
    with yz v False show ?thesis
      by (intro exI[of _ "d # ys"] exI[of _ zs]) auto
  qed
qed

lemma priqueue_offer_shape:
  assumes "priqueue_offer cmp q (Some x) = Inr (k, q')" "qinv q"
  shows "\<exists>ys zs. qhead q = ys @ zs \<and> q' = q\<lparr>qhead := ys @ x # zs, qsize := qsize q + 1\<rparr> \<and>
           (\<forall>e\<in>set ys. \<exists>v. cmp x e = Inr v \<and> \<not> v < 0) \<and>
           (zs = [] \<or> (\<exists>v. cmp x (hd zs) = Inr v \<and> v < 0)) \<and>
           k = (if ys = [] then 0 else int (length ys) - 1)"
proof (cases "qhead q")
  case Nil
  with assms show ?thesis by (auto simp: priqueue_offer_def)
next
  case (Cons h rest)
  from assms Cons obtain v where v: "cmp x h = Inr v"
    by (auto simp: priqueue_offer_def split: sum.splits)
  show ?thesis
  proof (cases "v < 0")
    case True
    with assms Cons v have "q' = q\<lparr>qhead := [] @ x # h # rest, qsize := qsize q + 1\<rparr>" "k = 0"
      by (auto simp: priqueue_offer_def)
    with True v Cons show ?thesis by (intro exI[of _ "[]"] exI[of _ "h # rest"]) auto
  next
    case False
    with assms Cons v obtain r where r: "offer_loop cmp x (qsize q) h rest 0 = Inr r"
      by (auto simp: priqueue_offer_def priqueue_size_def split: sum.splits)
    from assms Cons have "0 + int (length rest) < qsize q" by (simp add: qinv_def)
    from offer_loop_shape[OF r this] obtain ys zs where
      yz: "r = Some (h # ys @ x # zs, 0 + int (length ys))" "rest = ys @ zs"
        "\<forall>e\<in>set ys. \<exists>v. cmp x e = Inr v \<and> \<not> v < 0"
        "zs = [] \<or> (\<exists>v. cmp x (hd zs) = Inr v \<and> v < 0)"
      by blast
    with assms Cons v False r have "q' = q\<lparr>qhead := (h # ys) @ x # zs, qsize := qsize q + 1\<rparr>"
       "k = int (length ys)"
      by (auto simp: priqueue_offer_def priqueue_size_def)
    with yz v False Cons show ?thesis
      by (intro exI[of _ "h # ys"] exI[of _ zs]) auto
  qed
qed

section \<open>Facts about the heap and the clock advance\<close>

lemma running_set: "a \<in> set (running cs) \<longleftrightarrow> Some a \<in> set cs"
  by (induction cs rule: running.induct) auto

lemma deref_Inr: "deref h a = Inr j \<longleftrightarrow> a < length h \<and> h ! a = Some j"
  by (auto simp: deref_def split: option.splits)

lemma deref_update: "deref (h[a := Some j]) b = (if b = a \<and> a < length h then Inr j else deref h b)"
  by (auto simp: deref_def)

lemma ticked_refl: "ticked j j"
  by (simp add: ticked_def)

lemma ticked_trans: "ticked j j' \<Longrightarrow> ticked j' j'' \<Longrightarrow> ticked j j''"
  by (auto simp: ticked_def)

lemma ticked_advance: "ticked j (advance_job now j)"
  by (simp add: ticked_def advance_job_def)

lemma advance_cores_exact:
  "distinct (running cs) \<Longrightarrow> \<forall>a\<in>set (running cs). \<exists>j. deref h a = Inr j \<Longrightarrow>
     \<exists>h'. advance_cores now cs h = Inr h' \<and> length h' = length h \<and>
       (\<forall>a. h' ! a = (if a \<in> set (running cs) then map_option (advance_job now) (h ! a) else h ! a))"
proof (induction now cs h rule: advance_cores.induct)
  case (1 now h)
  then show ?case by simp
next
  case (2 now cs h)
  then show ?case by simp
next
  case (3 now a cs h)
  from "3.prems" obtain j where j: "deref h a = Inr j" by auto
  let ?h1 = "h[a := Some (advance_job now j)]"
  from "3.prems" have d: "distinct (running cs)" and na: "a \<notin> set (running cs)" by auto
  have live: "\<forall>b\<in>set (running cs). \<exists>k. deref ?h1 b = Inr k"
  proof
    fix b assume "b \<in> set (running cs)"
    with "3.prems" obtain k where "deref h b = Inr k" by auto
    then show "\<exists>k. deref ?h1 b = Inr k" by (auto simp: deref_update)
  qed
  from "3.IH"[OF j d live] obtain h' where
    h': "advance_cores now cs ?h1 = Inr h'" "length h' = length ?h1"
      "\<forall>b. h' ! b = (if b \<in> set (running cs) then map_option (advance_job now) (?h1 ! b) else ?h1 ! b)"
    by blast
  have "\<forall>b. h' ! b = (if b \<in> set (running (Some a # cs)) then map_option (advance_job now) (h ! b) else h ! b)"
  proof
    fix b
    show "h' ! b = (if b \<in> set (running (Some a # cs)) then map_option (advance_job now) (h ! b) else h ! b)"
      using h'(3)[rule_format, of b] na j by (cases "b = a") (auto simp: deref_Inr)
  qed
  with h' j show ?case by simp
qed

section \<open>What the search loops return\<close>

lemma finished_search_shape:
  assumes "finished_search h q n i jf = Inr (jf', q')" "qinv q" "0 \<le> i"
  shows "(\<exists>k j. nat i \<le> k \<and> k < length (qhead q) \<and> deref h (qhead q ! k) = Inr j \<and> job_id j = n \<and>
            (\<forall>m. nat i \<le> m \<and> m < k \<longrightarrow> (\<exists>jm. deref h (qhead q ! m) = Inr jm \<and> job_id jm \<noteq> n)) \<and>
            jf' = Some (Some (qhead q ! k)) \<and> q' = removed q k)
       \<or> ((\<forall>m. nat i \<le> m \<and> m < length (qhead q) \<longrightarrow> (\<exists>jm. deref h (qhead q ! m) = Inr jm \<and> job_id jm \<noteq> n)) \<and>
            q' = q \<and> (jf' = jf \<or> (\<exists>a\<in>set (qhead q). jf' = Some (Some a))))"
  using assms
proof (induction h q n i jf rule: finished_search.induct)
  case (1 h q n i jf)
  show ?case
  proof (cases "i < priqueue_size q")
    case False
    with "1.prems" have "q' = q" "jf' = jf" by (auto simp: finished_search.simps)
    moreover from False "1.prems" have "\<not> nat i < length (qhead q)"
      by (auto simp: qinv_def priqueue_size_def)
    ultimately show ?thesis by auto
  next
    case True
    with "1.prems" have lt: "nat i < length (qhead q)" and sz: "i < qsize q"
      by (auto simp: qinv_def priqueue_size_def)
    let ?a = "qhead q ! nat i"
    from "1.prems" sz have at: "priqueue_at q i = Inr (Some ?a)"
      by (simp add: priqueue_at_nth)
    from "1.prems"(1) True at obtain j where j: "deref h ?a = Inr j"
      by (subst (asm) finished_search.simps) (auto simp: deref_ptr_def split: sum.splits)
    show ?thesis
    proof (cases "job_id j = n")
      case yes: True
      from "1.prems" sz have "priqueue_remove_at q i = Inr (Some ?a, removed q (nat i))"
        by (simp add: priqueue_remove_at_nth removed_def)
      with "1.prems"(1) True at j yes have "jf' = Some (Some ?a)" "q' = removed q (nat i)"
        by (subst (asm) finished_search.simps; simp add: deref_ptr_def)+
      with lt j yes show ?thesis by (intro disjI1 exI[of _ "nat i"] exI[of _ j]) auto
    next
      case no: False
      with "1.prems"(1) True at j
      have rec: "finished_search h q n (i + 1) (Some (Some ?a)) = Inr (jf', q')"
        by (subst (asm) finished_search.simps) (simp add: deref_ptr_def)
      have step: "\<And>m. nat i \<le> m \<Longrightarrow> m \<noteq> nat i \<Longrightarrow> nat (i + 1) \<le> m"
        using "1.prems" by linarith
      have dj: "deref_ptr h (Some ?a) = Inr j" using j by (simp add: deref_ptr_def)
      from "1.prems" have "0 \<le> i + 1" by simp
      from "1.IH"[OF True at dj no rec "1.prems"(2) this]
      have IH: "(\<exists>k j. nat (i + 1) \<le> k \<and> k < length (qhead q) \<and> deref h (qhead q ! k) = Inr j \<and> job_id j = n \<and>
            (\<forall>m. nat (i + 1) \<le> m \<and> m < k \<longrightarrow> (\<exists>jm. deref h (qhead q ! m) = Inr jm \<and> job_id jm \<noteq> n)) \<and>
            jf' = Some (Some (qhead q ! k)) \<and> q' = removed q k)
       \<or> ((\<forall>m. nat (i + 1) \<le> m \<and> m < length (qhead q) \<longrightarrow> (\<exists>jm. deref h (qhead q ! m) = Inr jm \<and> job_id jm \<noteq> n)) \<and>
            q' = q \<and> (jf' = Some (Some ?a) \<or> (\<exists>a\<in>set (qhead q). jf' = Some (Some a))))"
        .
      then show ?thesis
      proof
        assume "\<exists>k j. nat (i + 1) \<le> k \<and> k < length (qhead q) \<and> deref h (qhead q ! k) = Inr j \<and> job_id j = n \<and>
            (\<forall>m. nat (i + 1) \<le> m \<and> m < k \<longrightarrow> (\<exists>jm. deref h (qhead q ! m) = Inr jm \<and> job_id jm \<noteq> n)) \<and>
            jf' = Some (Some (qhead q ! k)) \<and> q' = removed q k"
        then obtain k jk where k: "nat (i + 1) \<le> k" "k < length (qhead q)" "deref h (qhead q ! k) = Inr jk"
            "job_id jk = n"
            "\<forall>m. nat (i + 1) \<le> m \<and> m < k \<longrightarrow> (\<exists>jm. deref h (qhead q ! m) = Inr jm \<and> job_id jm \<noteq> n)"
            "jf' = Some (Some (qhead q ! k))" "q' = removed q k"
          by blast
        have "\<forall>m. nat i \<le> m \<and> m < k \<longrightarrow> (\<exists>jm. deref h (qhead q ! m) = Inr jm \<and> job_id jm \<noteq> n)"
        proof (intro allI impI)
          fix m assume m: "nat i \<le> m \<and> m < k"
          show "\<exists>jm. deref h (qhead q ! m) = Inr jm \<and> job_id jm \<noteq> n"
          proof (cases "m = nat i")
            case True with j no show ?thesis by auto
          next
            case False with m step k(5) show ?thesis by auto
          qed
        qed
        moreover from k(1) "1.prems" have "nat i \<le> k" by linarith
        ultimately show ?thesis using k by blast
      next
        assume nf: "(\<forall>m. nat (i + 1) \<le> m \<and> m < length (qhead q) \<longrightarrow> (\<exists>jm. deref h (qhead q ! m) = Inr jm \<and> job_id jm \<noteq> n)) \<and>
            q' = q \<and> (jf' = Some (Some ?a) \<or> (\<exists>a\<in>set (qhead q). jf' = Some (Some a)))"
        have "\<forall>m. nat i \<le> m \<and> m < length (qhead q) \<longrightarrow> (\<exists>jm. deref h (qhead q ! m) = Inr jm \<and> job_id jm \<noteq> n)"
        proof (intro allI impI)
          fix m assume m: "nat i \<le> m \<and> m < length (qhead q)"
          show "\<exists>jm. deref h (qhead q ! m) = Inr jm \<and> job_id jm \<noteq> n"
          proof (cases "m = nat i")
            case True with j no show ?thesis by auto
          next
            case False with m step nf show ?thesis by auto
          qed
        qed
        moreover from lt have "?a \<in> set (qhead q)" by simp
        ultimately show ?thesis using nf by blast
      qed
    qed
  qed
qed

lemma next_search_shape:
  assumes "next_search h q i nj = Inr (k, nj')" "qinv q" "0 \<le> i"
  shows "(k < priqueue_size q \<and> i \<le> k \<and>
           (\<exists>j. nj' = Some (qhead q ! nat k) \<and> deref h (qhead q ! nat k) = Inr j \<and> j_core j = - 1))
       \<or> (priqueue_size q \<le> k)"
  using assms
proof (induction h q i nj rule: next_search.induct)
  case (1 h q i nj)
  show ?case
  proof (cases "i < priqueue_size q")
    case False
    with "1.prems" show ?thesis by (auto simp: next_search.simps)
  next
    case True
    with "1.prems" have sz: "i < qsize q" by (simp add: priqueue_size_def)
    let ?a = "qhead q ! nat i"
    from "1.prems" sz have at: "priqueue_at q i = Inr (Some ?a)"
      by (simp add: priqueue_at_nth)
    from "1.prems"(1) True at obtain j where j: "deref h ?a = Inr j"
      by (subst (asm) next_search.simps) (auto split: sum.splits)
    show ?thesis
    proof (cases "j_core j = - 1")
      case yes: True
      with "1.prems"(1) True at j have "k = i" "nj' = Some ?a"
        by (subst (asm) next_search.simps; simp)+
      with True j yes show ?thesis by auto
    next
      case no: False
      with "1.prems"(1) True at j
      have rec: "next_search h q (i + 1) (Some ?a) = Inr (k, nj')"
        by (subst (asm) next_search.simps) simp
      from "1.prems" have "0 \<le> i + 1" by simp
      from "1.IH"(2)[OF True at refl j no rec "1.prems"(2) this] show ?thesis by auto
    qed
  qed
qed

lemma quantum_next_shape:
  assumes "quantum_next s core_id i = Inr (r, s')" "qinv (jobs s)" "0 \<le> i"
  shows "(r = - 1 \<and> s' = s \<and>
           (\<forall>m. nat i \<le> m \<and> m < length (qhead (jobs s)) \<longrightarrow>
              (\<exists>j. deref (heap s) (qhead (jobs s) ! m) = Inr j \<and> j_core j \<noteq> - 1)))
       \<or> (\<exists>b nj. b \<in> set (qhead (jobs s)) \<and> deref (heap s) b = Inr nj \<and> j_core nj = - 1 \<and>
             0 \<le> core_id \<and> core_id < int (length (c_job s)) \<and> r = job_id nj \<and>
             s' = s\<lparr>heap := (heap s)[b := Some (dispatch (c_time s) core_id nj)],
                    c_job := (c_job s)[nat core_id := Some b]\<rparr>)"
  using assms
proof (induction s core_id i rule: quantum_next.induct)
  case (1 s core_id i)
  show ?case
  proof (cases "i < priqueue_size (jobs s)")
    case False
    with "1.prems" have "\<not> nat i < length (qhead (jobs s))"
      by (auto simp: priqueue_size_def qinv_def)
    with False "1.prems" show ?thesis by (auto simp: quantum_next.simps)
  next
    case True
    with "1.prems" have sz: "i < qsize (jobs s)" and lt: "nat i < length (qhead (jobs s))"
      by (auto simp: priqueue_size_def qinv_def)
    let ?b = "qhead (jobs s) ! nat i"
    from "1.prems" sz have at: "priqueue_at (jobs s) i = Inr (Some ?b)"
      by (simp add: priqueue_at_nth)
    from "1.prems"(1) True at obtain nj where nj: "deref (heap s) ?b = Inr nj"
      by (subst (asm) quantum_next.simps) (auto split: sum.splits)
    show ?thesis
    proof (cases "j_core nj = - 1")
      case yes: True
      with "1.prems"(1) True at nj
      have "0 \<le> core_id \<and> core_id < int (length (c_job s)) \<and> r = job_id nj \<and>
             s' = s\<lparr>heap := (heap s)[?b := Some (dispatch (c_time s) core_id nj)],
                    c_job := (c_job s)[nat core_id := Some ?b]\<rparr>"
        by (subst (asm) quantum_next.simps) (auto simp: core_slot_def split: if_splits)
      with lt nj yes show ?thesis by (intro disjI2 exI[of _ ?b] exI[of _ nj]) simp
    next
      case no: False
      with "1.prems"(1) True at nj
      have rec: "quantum_next s core_id (i + 1) = Inr (r, s')"
        by (subst (asm) quantum_next.simps) simp
      from "1.prems" have "0 \<le> i + 1" by simp
      note IH = "1.IH"[OF True at refl nj no rec "1.prems"(2) this]
      have "\<And>m. nat i \<le> m \<Longrightarrow> m \<noteq> nat i \<Longrightarrow> nat (i + 1) \<le> m"
        using "1.prems" by linarith
      then have "(\<forall>m. nat (i + 1) \<le> m \<and> m < length (qhead (jobs s)) \<longrightarrow>
              (\<exists>j. deref (heap s) (qhead (jobs s) ! m) = Inr j \<and> j_core j \<noteq> - 1)) \<Longrightarrow>
            (\<forall>m. nat i \<le> m \<and> m < length (qhead (jobs s)) \<longrightarrow>
              (\<exists>j. deref (heap s) (qhead (jobs s) ! m) = Inr j \<and> j_core j \<noteq> - 1))"
        using nj no by metis
      with IH show ?thesis by blast
    qed
  qed
qed

lemma active_search_shape:
  assumes "active_search s core_id len i = Inr s'" "qinv (jobs s)" "0 \<le> i" "len = qsize (jobs s)"
  shows "s' = s
       \<or> (\<exists>k j cj. k < length (qhead (jobs s)) \<and> deref (heap s) (qhead (jobs s) ! k) = Inr j \<and>
             core_job (heap s) (c_job s) core_id = Inr cj \<and> job_id j = job_id cj \<and>
             quantum_found s core_id (int k) = Inr s')"
  using assms
proof (induction s core_id len i rule: active_search.induct)
  case (1 s core_id len i)
  show ?case
  proof (cases "i < len")
    case False
    with "1.prems" show ?thesis by (auto simp: active_search.simps)
  next
    case True
    with "1.prems" have sz: "i < qsize (jobs s)" and lt: "nat i < length (qhead (jobs s))"
      by (auto simp: qinv_def)
    let ?a = "qhead (jobs s) ! nat i"
    from "1.prems" sz have at: "priqueue_at (jobs s) i = Inr (Some ?a)"
      by (simp add: priqueue_at_nth)
    from "1.prems"(1) True at obtain aj where aj: "deref (heap s) ?a = Inr aj"
      by (subst (asm) active_search.simps) (auto simp: deref_ptr_def split: sum.splits)
    then have daj: "deref_ptr (heap s) (Some ?a) = Inr aj" by (simp add: deref_ptr_def)
    from "1.prems"(1) True at daj obtain cj where cj: "core_job (heap s) (c_job s) core_id = Inr cj"
      by (subst (asm) active_search.simps) (auto split: sum.splits)
    show ?thesis
    proof (cases "job_id aj = job_id cj")
      case yes: True
      with "1.prems"(1) \<open>i < len\<close> at daj cj have "quantum_found s core_id i = Inr s'"
        by (subst (asm) active_search.simps) simp
      with "1.prems" have "quantum_found s core_id (int (nat i)) = Inr s'" by simp
      with lt aj cj yes show ?thesis by blast
    next
      case no: False
      with "1.prems"(1) True at daj cj
      have rec: "active_search s core_id len (i + 1) = Inr s'"
        by (subst (asm) active_search.simps) simp
      from "1.prems" have "0 \<le> i + 1" by simp
      from "1.IH"[OF True at daj cj no rec "1.prems"(2) this "1.prems"(4)] show ?thesis .
    qed
  qed
qed

lemma enqueue_shape:
  assumes "enqueue s a = Inr s'" "qinv (jobs s)"
  shows "\<exists>ys zs. qhead (jobs s) = ys @ zs \<and>
           s' = s\<lparr>jobs := (jobs s)\<lparr>qhead := ys @ a # zs, qsize := qsize (jobs s) + 1\<rparr>\<rparr>"
proof -
  from assms(1) obtain k q' where o: "priqueue_offer (job_comp s) (jobs s) (Some a) = Inr (k, q')"
    and s': "s' = s\<lparr>jobs := q'\<rparr>"
    by (auto simp: enqueue_def split: sum.splits)
  from priqueue_offer_shape[OF o assms(2)] s' show ?thesis by blast
qed

lemma quantum_found_shape:
  assumes "quantum_found s core_id (int k) = Inr s'" "qinv (jobs s)" "k < length (qhead (jobs s))"
  shows "\<exists>aj. deref (heap s) (qhead (jobs s) ! k) = Inr aj \<and>
           (if t_remaining aj \<noteq> 0
            then enqueue (s\<lparr>jobs := removed (jobs s) k,
                            heap := (heap s)[qhead (jobs s) ! k := Some (aj\<lparr>j_core := - 1, t_updated := c_time s\<rparr>)]\<rparr>)
                   (qhead (jobs s) ! k) = Inr s'
            else 0 \<le> core_id \<and> core_id < int (length (c_job s)) \<and>
                 s' = (add_stats (c_time s) aj s)
                        \<lparr>jobs := removed (jobs s) k, heap := (heap s)[qhead (jobs s) ! k := None],
                         c_job := (c_job s)[nat core_id := None]\<rparr>)"
proof -
  from assms have "priqueue_remove_at (jobs s) (int k) = Inr (Some (qhead (jobs s) ! k), removed (jobs s) k)"
    by (simp add: priqueue_remove_at_nth removed_def qinv_def)
  with assms(1) show ?thesis
    by (auto simp: quantum_found_def deref_ptr_def core_slot_def split: sum.splits if_splits)
qed

lemma heap_ticked_refl: "heap_ticked h h"
  by (auto simp: heap_ticked_def ticked_refl split: option.splits)

lemma heap_ticked_trans:
  assumes "heap_ticked h h'" "heap_ticked h' h''"
  shows "heap_ticked h h''"
  unfolding heap_ticked_def
proof (intro conjI allI impI)
  show "length h'' = length h" using assms by (simp add: heap_ticked_def)
next
  fix a assume a: "a < length h"
  with assms have 1: "case h ! a of None \<Rightarrow> h' ! a = None | Some j \<Rightarrow> (\<exists>j'. h' ! a = Some j' \<and> ticked j j')"
    and 2: "case h' ! a of None \<Rightarrow> h'' ! a = None | Some j \<Rightarrow> (\<exists>j'. h'' ! a = Some j' \<and> ticked j j')"
    by (simp_all add: heap_ticked_def)
  show "case h ! a of None \<Rightarrow> h'' ! a = None | Some j \<Rightarrow> (\<exists>j'. h'' ! a = Some j' \<and> ticked j j')"
  proof (cases "h ! a")
    case None
    with 1 2 show ?thesis by simp
  next
    case (Some j)
    with 1 obtain j' where "h' ! a = Some j'" "ticked j j'" by auto
    with 2 Some show ?thesis by (auto intro: ticked_trans)
  qed
qed

lemma heap_ticked_update:
  "deref h a = Inr j \<Longrightarrow> ticked j j' \<Longrightarrow> heap_ticked h (h[a := Some j'])"
  by (auto simp: heap_ticked_def deref_Inr nth_list_update ticked_refl split: option.splits)

lemma advance_cores_ticked: "advance_cores now cs h = Inr h' \<Longrightarrow> heap_ticked h h'"
proof (induction now cs h rule: advance_cores.induct)
  case (3 now a cs h)
  from "3.prems" obtain j where j: "deref h a = Inr j" by (auto split: sum.splits)
  with "3.prems" have rec: "advance_cores now cs (h[a := Some (advance_job now j)]) = Inr h'" by simp
  from heap_ticked_update[OF j ticked_advance] "3.IH"[OF j rec] show ?case
    by (rule heap_ticked_trans)
qed (simp_all add: heap_ticked_refl)

lemma heap_ticked_deref:
  "heap_ticked h h' \<Longrightarrow> deref h a = Inr j \<Longrightarrow> \<exists>j'. deref h' a = Inr j' \<and> ticked j j'"
  by (auto simp: heap_ticked_def deref_Inr split: option.splits)

lemma heap_ticked_deref_rev:
  "heap_ticked h h' \<Longrightarrow> deref h' a = Inr j' \<Longrightarrow> \<exists>j. deref h a = Inr j \<and> ticked j j'"
  by (fastforce simp: heap_ticked_def deref_Inr split: option.splits)

lemma heap_ticked_length: "heap_ticked h h' \<Longrightarrow> length h' = length h"
  by (simp add: heap_ticked_def)

lemma heap_ticked_None: "heap_ticked h h' \<Longrightarrow> a < length h \<Longrightarrow> h' ! a = None \<longleftrightarrow> h ! a = None"
  by (fastforce simp: heap_ticked_def split: option.splits)

lemma increment_timestep_shape:
  assumes "increment_timestep s = Inr s'"
  shows "\<exists>h'. s' = s\<lparr>heap := h'\<rparr> \<and> heap_ticked (heap s) h'"
  using assms by (auto simp: increment_timestep_def split: sum.splits dest: advance_cores_ticked)

section \<open>The paths through the event functions\<close>

lemma scheduler_new_job_cases:
  assumes "scheduler_new_job blk n time rt prio s = Inr (r, s')"
  shows "\<exists>s2 j.
    increment_timestep (s\<lparr>heap := heap s @ [Some (new_block blk n time rt prio)],
                          c_time := time, n_jobs := n_jobs s + 1\<rparr>) = Inr s2 \<and>
    deref (heap s2) (length (heap s)) = Inr j \<and>
    ((r = free_core (c_job s2) 0 \<and> r < n_cores s2 \<and>
      enqueue (s2\<lparr>heap := (heap s2)[length (heap s) := Some (start_now (c_time s2) r j)],
                  c_job := (c_job s2)[nat r := Some (length (heap s))]\<rparr>) (length (heap s)) = Inr s')
     \<or> (\<not> free_core (c_job s2) 0 < n_cores s2 \<and> choose_victim s2 j = Inr r \<and> r \<noteq> - 1 \<and>
         (\<exists>va v. core_slot (c_job s2) r = Inr (Some va) \<and>
            deref ((heap s2)[length (heap s) := Some (start_now (c_time s2) r j)]) va = Inr v \<and>
            enqueue (s2\<lparr>heap := (heap s2)[length (heap s) := Some (start_now (c_time s2) r j),
                                         va := Some (evict (c_time s2) v)],
                        c_job := (c_job s2)[nat r := Some (length (heap s))]\<rparr>) (length (heap s)) = Inr s'))
     \<or> (\<not> free_core (c_job s2) 0 < n_cores s2 \<and> choose_victim s2 j = Inr (- 1) \<and> r = - 1 \<and>
         enqueue s2 (length (heap s)) = Inr s'))"
  using assms unfolding scheduler_new_job_def Let_def
  by (auto split: sum.splits option.splits if_splits)

lemma scheduler_job_finished_cases:
  assumes "scheduler_job_finished core_id n time s = Inr (r, s')"
  shows "\<exists>s1 a q j.
    increment_timestep (s\<lparr>c_time := time\<rparr>) = Inr s1 \<and>
    finished_search (heap s1) (jobs s1) n 0 None = Inr (Some (Some a), q) \<and>
    deref (heap s1) a = Inr j \<and> 0 \<le> core_id \<and> core_id < int (length (c_job s1)) \<and>
    (let s2 = (add_stats time j s1)\<lparr>jobs := q, heap := (heap s1)[a := None],
                                     c_job := (c_job s1)[nat core_id := None]\<rparr>
     in (r = - 1 \<and> s' = s2) \<or>
        (\<exists>i b nj. next_search (heap s2) q 0 None = Inr (i, Some b) \<and> i < priqueue_size q \<and>
           deref (heap s2) b = Inr nj \<and> r = job_id nj \<and>
           s' = s2\<lparr>heap := (heap s2)[b := Some (dispatch (c_time s2) core_id nj)],
                   c_job := (c_job s2)[nat core_id := Some b]\<rparr>))"
  using assms unfolding scheduler_job_finished_def Let_def
  by (auto simp: core_slot_def split: sum.splits option.splits if_splits)

lemma scheduler_quantum_expired_cases:
  assumes "scheduler_quantum_expired core_id time s = Inr (r, s')"
  shows "\<exists>s1 s2.
    increment_timestep (s\<lparr>c_time := time\<rparr>) = Inr s1 \<and>
    active_search s1 core_id (priqueue_size (jobs s1)) 0 = Inr s2 \<and>
    quantum_next s2 core_id 0 = Inr (r, s')"
  using assms unfolding scheduler_quantum_expired_def
  by (auto split: sum.splits)

section \<open>What the events leave alone\<close>

lemma None_update_Some: "deref h b = Inr j \<Longrightarrow> None \<in> set (h[b := Some x]) \<longleftrightarrow> None \<in> set h"
proof -
  assume d: "deref h b = Inr j"
  then have b: "b < length h" "h ! b = Some j" by (simp_all add: deref_Inr)
  show ?thesis
  proof
    assume "None \<in> set (h[b := Some x])"
    then obtain i where "i < length h" "(h[b := Some x]) ! i = None"
      by (auto simp: in_set_conv_nth)
    with b have "i \<noteq> b" "h ! i = None" by (auto simp: nth_list_update split: if_splits)
    with \<open>i < length h\<close> show "None \<in> set h" by (metis nth_mem)
  next
    assume "None \<in> set h"
    then obtain i where "i < length h" "h ! i = None" by (auto simp: in_set_conv_nth)
    with b have "i \<noteq> b" by auto
    with \<open>i < length h\<close> \<open>h ! i = None\<close> have "(h[b := Some x]) ! i = None" "i < length (h[b := Some x])"
      by simp_all
    then show "None \<in> set (h[b := Some x])" by (metis nth_mem)
  qed
qed

lemma None_update_None: "a < length h \<Longrightarrow> None \<in> set (h[a := None])"
  by (metis length_list_update nth_list_update_eq nth_mem)

lemma heap_ticked_None_mem: "heap_ticked h h' \<Longrightarrow> None \<in> set h' \<longleftrightarrow> None \<in> set h"
  by (metis (no_types) heap_ticked_None heap_ticked_length in_set_conv_nth)

lemma qinv_insert: "qinv q \<Longrightarrow> qhead q = ys @ zs \<Longrightarrow> qinv (q\<lparr>qhead := ys @ a # zs, qsize := qsize q + 1\<rparr>)"
  by (simp add: qinv_def)

lemma qinv_removed: "qinv q \<Longrightarrow> k < length (qhead q) \<Longrightarrow> qinv (removed q k)"
  by (auto simp: qinv_def removed_def)

lemma qinv_init: "qinv priqueue_init"
  by (simp add: qinv_def priqueue_init_def)

lemma new_job_frame:
  assumes "scheduler_new_job blk n time rt prio s = Inr (r, s')" "qinv (jobs s)"
  shows "qinv (jobs s') \<and> qsize (jobs s') = qsize (jobs s) + 1 \<and> n_jobs s' = n_jobs s + 1 \<and>
         t_wait s' = t_wait s \<and> t_turnaround s' = t_turnaround s \<and> t_response s' = t_response s \<and>
         (None \<in> set (heap s') \<longleftrightarrow> None \<in> set (heap s)) \<and>
         length (c_job s') = length (c_job s) \<and> t_scheme s' = t_scheme s \<and>
         length (heap s') = Suc (length (heap s))"
proof -
  let ?job = "length (heap s)"
  let ?s1 = "s\<lparr>heap := heap s @ [Some (new_block blk n time rt prio)], c_time := time, n_jobs := n_jobs s + 1\<rparr>"
  from scheduler_new_job_cases[OF assms(1)] obtain s2 j where
    inc: "increment_timestep ?s1 = Inr s2" and j: "deref (heap s2) ?job = Inr j" and
    cases: "(r = free_core (c_job s2) 0 \<and> r < n_cores s2 \<and>
      enqueue (s2\<lparr>heap := (heap s2)[?job := Some (start_now (c_time s2) r j)],
                  c_job := (c_job s2)[nat r := Some ?job]\<rparr>) ?job = Inr s')
     \<or> (\<not> free_core (c_job s2) 0 < n_cores s2 \<and> choose_victim s2 j = Inr r \<and> r \<noteq> - 1 \<and>
         (\<exists>va v. core_slot (c_job s2) r = Inr (Some va) \<and>
            deref ((heap s2)[?job := Some (start_now (c_time s2) r j)]) va = Inr v \<and>
            enqueue (s2\<lparr>heap := (heap s2)[?job := Some (start_now (c_time s2) r j),
                                         va := Some (evict (c_time s2) v)],
                        c_job := (c_job s2)[nat r := Some ?job]\<rparr>) ?job = Inr s'))
     \<or> (\<not> free_core (c_job s2) 0 < n_cores s2 \<and> choose_victim s2 j = Inr (- 1) \<and> r = - 1 \<and>
         enqueue s2 ?job = Inr s')"
    by blast
  from increment_timestep_shape[OF inc] obtain h2 where
    s2: "s2 = ?s1\<lparr>heap := h2\<rparr>" and tk: "heap_ticked (heap ?s1) h2" by blast
  from tk have len2: "length h2 = Suc (length (heap s))"
    by (simp add: heap_ticked_def)
  from heap_ticked_None_mem[OF tk] have none2: "None \<in> set h2 \<longleftrightarrow> None \<in> set (heap s)" by simp
  from j s2 have j2: "deref h2 ?job = Inr j" by simp
  from cases show ?thesis
  proof (elim disjE conjE exE)
    assume e: "enqueue (s2\<lparr>heap := (heap s2)[?job := Some (start_now (c_time s2) r j)],
                  c_job := (c_job s2)[nat r := Some ?job]\<rparr>) ?job = Inr s'"
    from enqueue_shape[OF e] assms(2) s2 obtain ys zs where
      "qhead (jobs s) = ys @ zs"
      "s' = s2\<lparr>heap := (heap s2)[?job := Some (start_now (c_time s2) r j)],
                  c_job := (c_job s2)[nat r := Some ?job],
               jobs := (jobs s)\<lparr>qhead := ys @ ?job # zs, qsize := qsize (jobs s) + 1\<rparr>\<rparr>"
      by auto
    with s2 assms(2) len2 none2 j2 show ?thesis
      by (simp add: qinv_insert None_update_Some)
  next
    fix va v
    assume v: "deref ((heap s2)[?job := Some (start_now (c_time s2) r j)]) va = Inr v"
    assume e: "enqueue (s2\<lparr>heap := (heap s2)[?job := Some (start_now (c_time s2) r j),
                                         va := Some (evict (c_time s2) v)],
                        c_job := (c_job s2)[nat r := Some ?job]\<rparr>) ?job = Inr s'"
    from enqueue_shape[OF e] assms(2) s2 obtain ys zs where
      "qhead (jobs s) = ys @ zs"
      "s' = s2\<lparr>heap := (heap s2)[?job := Some (start_now (c_time s2) r j), va := Some (evict (c_time s2) v)],
                  c_job := (c_job s2)[nat r := Some ?job],
               jobs := (jobs s)\<lparr>qhead := ys @ ?job # zs, qsize := qsize (jobs s) + 1\<rparr>\<rparr>"
      by auto
    with s2 assms(2) len2 none2 j2 v show ?thesis
      by (simp add: qinv_insert None_update_Some)
  next
    assume e: "enqueue s2 ?job = Inr s'"
    from enqueue_shape[OF e] assms(2) s2 obtain ys zs where
      "qhead (jobs s) = ys @ zs"
      "s' = s2\<lparr>jobs := (jobs s)\<lparr>qhead := ys @ ?job # zs, qsize := qsize (jobs s) + 1\<rparr>\<rparr>"
      by auto
    with s2 assms(2) len2 none2 show ?thesis
      by (simp add: qinv_insert)
  qed
qed

lemma job_finished_frame:
  assumes "scheduler_job_finished core_id n time s = Inr (r, s')" "qinv (jobs s)"
  shows "qinv (jobs s') \<and> n_jobs s' = n_jobs s \<and> None \<in> set (heap s') \<and>
         length (c_job s') = length (c_job s) \<and> t_scheme s' = t_scheme s \<and>
         length (heap s') = length (heap s) \<and>
         ((\<exists>a\<in>set (qhead (jobs s)). \<exists>j. deref (heap s) a = Inr j \<and> job_id j = n)
            \<longrightarrow> qsize (jobs s') = qsize (jobs s) - 1)"
proof -
  from scheduler_job_finished_cases[OF assms(1)] obtain s1 a q j where
    inc: "increment_timestep (s\<lparr>c_time := time\<rparr>) = Inr s1" and
    fs: "finished_search (heap s1) (jobs s1) n 0 None = Inr (Some (Some a), q)" and
    j: "deref (heap s1) a = Inr j" and
    rest: "let s2 = (add_stats time j s1)\<lparr>jobs := q, heap := (heap s1)[a := None],
                                     c_job := (c_job s1)[nat core_id := None]\<rparr>
     in (r = - 1 \<and> s' = s2) \<or>
        (\<exists>i b nj. next_search (heap s2) q 0 None = Inr (i, Some b) \<and> i < priqueue_size q \<and>
           deref (heap s2) b = Inr nj \<and> r = job_id nj \<and>
           s' = s2\<lparr>heap := (heap s2)[b := Some (dispatch (c_time s2) core_id nj)],
                   c_job := (c_job s2)[nat core_id := Some b]\<rparr>)"
    by blast
  from increment_timestep_shape[OF inc] obtain h1 where
    s1: "s1 = s\<lparr>c_time := time, heap := h1\<rparr>" and tk: "heap_ticked (heap s) h1" by auto
  from s1 assms(2) have q1: "qinv (jobs s1)" "jobs s1 = jobs s" by simp_all
  from finished_search_shape[OF fs q1(1)] q1(2)
  have shape: "(\<exists>k. k < length (qhead (jobs s)) \<and> q = removed (jobs s) k) \<or>
     ((\<forall>m. m < length (qhead (jobs s)) \<longrightarrow> (\<exists>jm. deref (heap s1) (qhead (jobs s) ! m) = Inr jm \<and> job_id jm \<noteq> n)) \<and> q = jobs s)"
    by auto
  then have qq: "qinv q" using assms(2) by (auto simp: qinv_removed)
  have pres: "(\<exists>a\<in>set (qhead (jobs s)). \<exists>j. deref (heap s) a = Inr j \<and> job_id j = n)
            \<longrightarrow> qsize q = qsize (jobs s) - 1"
  proof
    assume "\<exists>a\<in>set (qhead (jobs s)). \<exists>j. deref (heap s) a = Inr j \<and> job_id j = n"
    then obtain m jm where m: "m < length (qhead (jobs s))" "deref (heap s) (qhead (jobs s) ! m) = Inr jm" "job_id jm = n"
      by (auto simp: in_set_conv_nth)
    from heap_ticked_deref[OF tk m(2)] s1 obtain jm' where
      "deref (heap s1) (qhead (jobs s) ! m) = Inr jm'" "ticked jm jm'" by auto
    with m(3) have "deref (heap s1) (qhead (jobs s) ! m) = Inr jm' \<and> job_id jm' = n"
      by (simp add: ticked_def)
    with shape m(1) obtain k where "q = removed (jobs s) k" by fastforce
    then show "qsize q = qsize (jobs s) - 1" by (simp add: removed_def)
  qed
  from j have a: "a < length (heap s1)" by (simp add: deref_Inr)
  let ?s2 = "(add_stats time j s1)\<lparr>jobs := q, heap := (heap s1)[a := None],
                                     c_job := (c_job s1)[nat core_id := None]\<rparr>"
  from tk s1 have len: "length (heap s1) = length (heap s)" by (simp add: heap_ticked_def)
  from rest have "(r = - 1 \<and> s' = ?s2) \<or>
        (\<exists>b nj. deref (heap ?s2) b = Inr nj \<and>
           s' = ?s2\<lparr>heap := (heap ?s2)[b := Some (dispatch (c_time ?s2) core_id nj)],
                   c_job := (c_job ?s2)[nat core_id := Some b]\<rparr>)"
    unfolding Let_def by blast
  then show ?thesis
  proof (elim disjE conjE exE)
    assume "s' = ?s2"
    with qq pres a len s1 show ?thesis by (simp add: add_stats_def None_update_None)
  next
    fix b nj
    assume b: "deref (heap ?s2) b = Inr nj"
      and s': "s' = ?s2\<lparr>heap := (heap ?s2)[b := Some (dispatch (c_time ?s2) core_id nj)],
                   c_job := (c_job ?s2)[nat core_id := Some b]\<rparr>"
    from a have "None \<in> set (heap ?s2)" by (simp add: None_update_None add_stats_def)
    with b have "None \<in> set ((heap ?s2)[b := Some (dispatch (c_time ?s2) core_id nj)])"
      by (simp only: None_update_Some)
    with s' qq pres len s1 show ?thesis by (simp add: add_stats_def)
  qed
qed

lemma quantum_expired_frame:
  assumes "scheduler_quantum_expired core_id time s = Inr (r, s')" "qinv (jobs s)"
  shows "qinv (jobs s') \<and> n_jobs s' = n_jobs s \<and>
         length (c_job s') = length (c_job s) \<and> t_scheme s' = t_scheme s \<and>
         length (heap s') = length (heap s) \<and>
         (None \<in> set (heap s') \<or>
          (\<not> None \<in> set (heap s) \<and> t_wait s' = t_wait s \<and> t_turnaround s' = t_turnaround s \<and>
           t_response s' = t_response s))"
proof -
  from scheduler_quantum_expired_cases[OF assms(1)] obtain s1 s2 where
    inc: "increment_timestep (s\<lparr>c_time := time\<rparr>) = Inr s1" and
    act: "active_search s1 core_id (priqueue_size (jobs s1)) 0 = Inr s2" and
    nxt: "quantum_next s2 core_id 0 = Inr (r, s')"
    by blast
  from increment_timestep_shape[OF inc] obtain h1 where
    s1: "s1 = s\<lparr>c_time := time, heap := h1\<rparr>" and tk: "heap_ticked (heap s) h1" by auto
  from s1 assms(2) have q1: "qinv (jobs s1)" by simp
  from tk have len1: "length h1 = length (heap s)" by (simp add: heap_ticked_def)
  from heap_ticked_None_mem[OF tk] have none1: "None \<in> set h1 \<longleftrightarrow> None \<in> set (heap s)" .
  define G where "G = (\<lambda>t::sched. qinv (jobs t) \<and> n_jobs t = n_jobs s \<and>
         length (c_job t) = length (c_job s) \<and> t_scheme t = t_scheme s \<and>
         length (heap t) = length (heap s) \<and>
         (None \<in> set (heap t) \<or>
          (\<not> None \<in> set (heap s) \<and> t_wait t = t_wait s \<and> t_turnaround t = t_turnaround s \<and>
           t_response t = t_response s)))"
  have G1: "G s1" using s1 q1 len1 none1 by (auto simp: G_def)
  have G2: "G s2"
  proof -
    from active_search_shape[OF act q1 _ ] have
      "s2 = s1 \<or> (\<exists>k. k < length (qhead (jobs s1)) \<and> quantum_found s1 core_id (int k) = Inr s2)"
      by (auto simp: priqueue_size_def)
    then show ?thesis
    proof (elim disjE exE conjE)
      assume "s2 = s1" with G1 show ?thesis by simp
    next
      fix k assume k: "k < length (qhead (jobs s1))" and qf: "quantum_found s1 core_id (int k) = Inr s2"
      let ?a = "qhead (jobs s1) ! k"
      from quantum_found_shape[OF qf q1 k] obtain aj where
        aj: "deref (heap s1) ?a = Inr aj" and
        br: "if t_remaining aj \<noteq> 0
            then enqueue (s1\<lparr>jobs := removed (jobs s1) k,
                            heap := (heap s1)[?a := Some (aj\<lparr>j_core := - 1, t_updated := c_time s1\<rparr>)]\<rparr>) ?a = Inr s2
            else 0 \<le> core_id \<and> core_id < int (length (c_job s1)) \<and>
                 s2 = (add_stats (c_time s1) aj s1)
                        \<lparr>jobs := removed (jobs s1) k, heap := (heap s1)[?a := None],
                         c_job := (c_job s1)[nat core_id := None]\<rparr>"
        by blast
      show ?thesis
      proof (cases "t_remaining aj \<noteq> 0")
        case True
        let ?t = "s1\<lparr>jobs := removed (jobs s1) k,
                     heap := (heap s1)[?a := Some (aj\<lparr>j_core := - 1, t_updated := c_time s1\<rparr>)]\<rparr>"
        from True br have e: "enqueue ?t ?a = Inr s2" by simp
        have "qinv (jobs ?t)" using q1 k by (simp add: qinv_removed)
        from enqueue_shape[OF e this] obtain ys zs where
          yz: "qhead (jobs ?t) = ys @ zs"
          "s2 = ?t\<lparr>jobs := (jobs ?t)\<lparr>qhead := ys @ ?a # zs, qsize := qsize (jobs ?t) + 1\<rparr>\<rparr>"
          by blast
        from yz(1) \<open>qinv (jobs ?t)\<close> have "qinv ((jobs ?t)\<lparr>qhead := ys @ ?a # zs, qsize := qsize (jobs ?t) + 1\<rparr>)"
          by (rule qinv_insert[rotated])
        with yz(2) G1 aj show ?thesis
          by (simp add: G_def None_update_Some)
      next
        case False
        with br have s2: "s2 = (add_stats (c_time s1) aj s1)
                        \<lparr>jobs := removed (jobs s1) k, heap := (heap s1)[?a := None],
                         c_job := (c_job s1)[nat core_id := None]\<rparr>" by simp
        from aj have "?a < length (heap s1)" by (simp add: deref_Inr)
        then have "None \<in> set ((heap s1)[?a := None])" by (rule None_update_None)
        with s2 G1 q1 k show ?thesis
          by (simp add: G_def add_stats_def qinv_removed)
      qed
    qed
  qed
  then have q2: "qinv (jobs s2)" by (simp add: G_def)
  from quantum_next_shape[OF nxt q2] have
    "s' = s2 \<or> (\<exists>b nj. deref (heap s2) b = Inr nj \<and>
             s' = s2\<lparr>heap := (heap s2)[b := Some (dispatch (c_time s2) core_id nj)],
                    c_job := (c_job s2)[nat core_id := Some b]\<rparr>)"
    by auto
  then have "G s'"
  proof (elim disjE exE conjE)
    assume "s' = s2" with G2 show ?thesis by simp
  next
    fix b nj assume "deref (heap s2) b = Inr nj"
      "s' = s2\<lparr>heap := (heap s2)[b := Some (dispatch (c_time s2) core_id nj)],
                    c_job := (c_job s2)[nat core_id := Some b]\<rparr>"
    with G2 show ?thesis by (simp add: G_def None_update_Some)
  qed
  then show ?thesis by (simp add: G_def)
qed

section \<open>Rounding\<close>

text \<open>The exponent found: the bound on \<open>r\<close> holds for it, and unless it is the starting
  exponent the mantissa has its leading bit.\<close>

lemma quantum_props:
  "e0 \<le> quantum r e0 \<and> \<bar>r\<bar> < 2 ^ 24 * 2 powi (quantum r e0) \<and>
   (quantum r e0 = e0 \<or> 2 ^ 23 * 2 powi (quantum r e0) \<le> \<bar>r\<bar>)"
proof (induction r e0 rule: quantum.induct)
  case (1 r e)
  show ?case
  proof (cases "2 ^ 24 * 2 powi e \<le> \<bar>r\<bar>")
    case False
    then show ?thesis by (subst (1 2 3 4) quantum.simps) simp
  next
    case True
    from 1[OF True] have ih: "e + 1 \<le> quantum r (e + 1)"
      "\<bar>r\<bar> < 2 ^ 24 * 2 powi (quantum r (e + 1))"
      "quantum r (e + 1) = e + 1 \<or> 2 ^ 23 * 2 powi (quantum r (e + 1)) \<le> \<bar>r\<bar>"
      by simp_all
    have q: "quantum r e = quantum r (e + 1)" using True by (subst quantum.simps) simp
    have "2 ^ 23 * 2 powi (quantum r (e + 1)) \<le> \<bar>r\<bar>"
    proof (cases "quantum r (e + 1) = e + 1")
      case True
      have "(2::real) ^ 23 * 2 powi (e + 1) = 2 ^ 24 * 2 powi e" by (simp add: power_int_add)
      with \<open>2 ^ 24 * 2 powi e \<le> \<bar>r\<bar>\<close> True show ?thesis by simp
    next
      case False
      with ih(3) show ?thesis by simp
    qed
    with ih q show ?thesis by simp
  qed
qed

lemma round_even_error: "\<bar>of_int (round_even x) - x\<bar> \<le> 1 / 2"
  unfolding round_even_def Let_def by (auto simp: abs_le_iff)

lemma round_even_int: "round_even (of_int k) = k"
  by (simp add: round_even_def)

text \<open>The rounded value is off by half a unit of the last place at most.\<close>

lemma rne_error: "\<bar>rne r - r\<bar> \<le> max (\<bar>r\<bar> / 2 ^ 24) (2 powi (- 150))"
proof -
  define e where "e = quantum r (- 149)"
  define m where "m = r / 2 powi e"
  have p: "(0::real) < 2 powi e" by simp
  have r: "r = m * 2 powi e" by (simp add: m_def)
  have "rne r - r = (of_int (round_even m) - m) * 2 powi e"
    by (simp add: rne_def e_def[symmetric] m_def[symmetric] Let_def algebra_simps r[symmetric])
  then have "\<bar>rne r - r\<bar> = \<bar>of_int (round_even m) - m\<bar> * 2 powi e"
    by (simp add: abs_mult)
  also have "\<dots> \<le> 1 / 2 * 2 powi e"
    using round_even_error[of m] p by (intro mult_right_mono) simp_all
  finally have b: "\<bar>rne r - r\<bar> \<le> 2 powi e / 2" by simp
  from quantum_props[of "- 149" r] have "e = - 149 \<or> 2 ^ 23 * 2 powi e \<le> \<bar>r\<bar>"
    by (simp add: e_def)
  then show ?thesis
  proof
    assume e: "e = - 149"
    have "(2::real) powi (e - 1) = 2 powi e / 2" by (simp add: power_int_diff)
    with e have "(2::real) powi e / 2 = 2 powi (- 150)" by simp
    with b have "\<bar>rne r - r\<bar> \<le> 2 powi (- 150)" by (simp only:)
    then show ?thesis by (simp only: le_max_iff_disj) blast
  next
    assume "2 ^ 23 * 2 powi e \<le> \<bar>r\<bar>"
    then have "2 powi e / 2 \<le> \<bar>r\<bar> / 2 ^ 24" by simp
    with b have "\<bar>rne r - r\<bar> \<le> \<bar>r\<bar> / 2 ^ 24" by (rule order_trans)
    then show ?thesis by (simp only: le_max_iff_disj) blast
  qed
qed

text \<open>An integer below \<^verbatim>\<open>2^24\<close> in magnitude is a binary32 number.\<close>

lemma rne_int:
  assumes "\<bar>i\<bar> < 2 ^ 24"
  shows "rne (of_int i) = of_int i"
proof -
  define e where "e = quantum (of_int i) (- 149)"
  from assms have a: "\<bar>real_of_int i\<bar> < 2 ^ 24"
    by (metis of_int_abs of_int_less_numeral_power_cancel_iff)
  from quantum_props[of "- 149" "of_int i"]
  have lo: "- 149 \<le> e" and c: "e = - 149 \<or> 2 ^ 23 * 2 powi e \<le> \<bar>real_of_int i\<bar>"
    by (simp_all add: e_def)
  have "e \<le> 0"
  proof (rule ccontr)
    assume "\<not> e \<le> 0"
    then have e1: "1 \<le> e" by simp
    with c have "2 ^ 23 * 2 powi e \<le> \<bar>real_of_int i\<bar>" by auto
    moreover from e1 have "(2::real) powi 1 \<le> 2 powi e" by (intro power_int_increasing) simp_all
    ultimately have "2 ^ 24 \<le> \<bar>real_of_int i\<bar>" by simp
    with a show False by simp
  qed
  then obtain k where k: "e = - int k" by (metis nat_0_le neg_0_le_iff_le minus_minus)
  have "real_of_int i / 2 powi e = of_int (i * 2 ^ k)"
    by (simp add: k power_int_minus field_simps)
  then have "round_even (real_of_int i / 2 powi e) = i * 2 ^ k"
    by (simp only: round_even_int)
  then show ?thesis
    by (simp add: rne_def e_def[symmetric] Let_def k power_int_minus field_simps)
qed

lemma float_of_int_exact:
  assumes "\<bar>i\<bar> < 2 ^ 24"
  shows "float_of_int i = Finite (of_int i)"
proof -
  from assms have a: "\<bar>real_of_int i\<bar> < 2 ^ 24"
    by (metis of_int_abs of_int_less_numeral_power_cancel_iff)
  have "(2::real) ^ 24 \<le> 2 ^ 128" by simp
  with a have "\<not> 2 ^ 128 \<le> \<bar>real_of_int i\<bar>" by linarith
  then show ?thesis
    by (simp add: float_of_int_def round32_def rne_int[OF assms] Let_def float_zero_def)
qed

text \<open>A finite result of rounding is within half a unit of the last place of the exact
  value.\<close>

lemma round32_error:
  "round32 r = Finite v \<Longrightarrow> \<bar>v - r\<bar> \<le> max (\<bar>r\<bar> / 2 ^ 24) (2 powi (- 150))"
  using rne_error[of r]
  by (auto simp: round32_def Let_def float_zero_def split: if_splits)

lemma run_counts:
  "run evs s0 = Inr s \<Longrightarrow> qinv (jobs s0) \<Longrightarrow>
     qinv (jobs s) \<and> n_jobs s = n_jobs s0 + int (length (filter is_new_job evs)) \<and>
     length (heap s) = length (heap s0) + length (filter is_new_job evs) \<and>
     (None \<in> set (heap s) \<or>
      (\<not> None \<in> set (heap s0) \<and> t_wait s = t_wait s0 \<and> t_turnaround s = t_turnaround s0 \<and>
       t_response s = t_response s0))"
proof (induction evs arbitrary: s0)
  case Nil
  then show ?case by simp
next
  case (Cons e es)
  from Cons.prems(1) obtain r s1 where st: "step e s0 = Inr (r, s1)" and rn: "run es s1 = Inr s"
    by (auto split: sum.splits)
  have one: "qinv (jobs s1) \<and> n_jobs s1 = n_jobs s0 + (if is_new_job e then 1 else 0) \<and>
     length (heap s1) = length (heap s0) + (if is_new_job e then 1 else 0) \<and>
     (None \<in> set (heap s1) \<or>
      (\<not> None \<in> set (heap s0) \<and> t_wait s1 = t_wait s0 \<and> t_turnaround s1 = t_turnaround s0 \<and>
       t_response s1 = t_response s0)) \<and> (None \<in> set (heap s0) \<longrightarrow> None \<in> set (heap s1))"
  proof (cases e)
    case (New_job blk n time rt prio)
    with st have "scheduler_new_job blk n time rt prio s0 = Inr (r, s1)" by simp
    from new_job_frame[OF this Cons.prems(2)] New_job show ?thesis
      by (auto simp: is_new_job_def)
  next
    case (Job_finished core_id n time)
    with st have "scheduler_job_finished core_id n time s0 = Inr (r, s1)" by simp
    from job_finished_frame[OF this Cons.prems(2)] Job_finished show ?thesis
      by (auto simp: is_new_job_def)
  next
    case (Quantum_expired core_id time)
    with st have "scheduler_quantum_expired core_id time s0 = Inr (r, s1)" by simp
    from quantum_expired_frame[OF this Cons.prems(2)] Quantum_expired show ?thesis
      by (auto simp: is_new_job_def)
  qed
  then have q1: "qinv (jobs s1)" by simp
  from Cons.IH[OF rn q1] one show ?case by auto
qed

section \<open>Statistics\<close>

lemma float_div_rounded:
  assumes "x \<noteq> 0" "0 < n" "n < 2 ^ 24"
  shows "rounded_quotient (float_div (Finite x) (float_of_int (int n))) x n"
proof -
  from assms(3) have "\<bar>int n\<bar> < 2 ^ 24" by simp
  from float_of_int_exact[OF this] have "float_of_int (int n) = Finite (real n)" by simp
  with assms(1,2) have e: "float_div (Finite x) (float_of_int (int n)) = round32 (x / real n)"
    by simp
  show ?thesis
    unfolding rounded_quotient_def
  proof (intro conjI allI impI)
    show "float_div (Finite x) (float_of_int (int n)) = round32 (x / real n)" by (rule e)
  next
    fix v assume "float_div (Finite x) (float_of_int (int n)) = Finite v"
    with e have "round32 (x / real n) = Finite v" by (simp only:)
    then show "\<bar>v - x / real n\<bar> \<le> max (\<bar>x / real n\<bar> / 2 ^ 24) (2 powi (- 150))"
      by (rule round32_error)
  qed
qed

text \<open>
  C8. After any sequence of event calls from \<^verbatim>\<open>scheduler_start_up\<close> that stays within
  defined behaviour, \<^verbatim>\<open>n_jobs\<close> is the number \<open>n\<close> of \<^verbatim>\<open>scheduler_new_job\<close> calls made.
  Each of the three averages is \<open>+0\<close> when its running sum, the \<^verbatim>\<open>float\<close> variable, is a
  zero, and is otherwise that variable divided by \<open>(float)n\<close> in single precision. As long
  as no job has completed (no block has been freed) the three sums are zero, and so are the
  three averages. A sum that is not zero is never divided by zero. For a finite sum that is
  not zero and fewer than \<^verbatim>\<open>2^24\<close> jobs, the division returns the exact quotient of the sum
  and \<open>n\<close>, rounded to binary32.
\<close>

theorem average_times:
  assumes "run evs (scheduler_start_up cores scheme) = Inr s"
  shows "n_jobs s = int (length (filter is_new_job evs)) \<and>
    scheduler_average_waiting_time s =
      (if float_nonzero (t_wait s)
       then float_div (t_wait s) (float_of_int (int (length (filter is_new_job evs))))
       else Finite 0) \<and>
    scheduler_average_turnaround_time s =
      (if float_nonzero (t_turnaround s)
       then float_div (t_turnaround s) (float_of_int (int (length (filter is_new_job evs))))
       else Finite 0) \<and>
    scheduler_average_response_time s =
      (if float_nonzero (t_response s)
       then float_div (t_response s) (float_of_int (int (length (filter is_new_job evs))))
       else Finite 0) \<and>
    (None \<notin> set (heap s) \<longrightarrow>
       t_wait s = Finite 0 \<and> t_turnaround s = Finite 0 \<and> t_response s = Finite 0 \<and>
       scheduler_average_waiting_time s = Finite 0 \<and>
       scheduler_average_turnaround_time s = Finite 0 \<and>
       scheduler_average_response_time s = Finite 0) \<and>
    (float_nonzero (t_wait s) \<or> float_nonzero (t_turnaround s) \<or> float_nonzero (t_response s)
       \<longrightarrow> 0 < length (filter is_new_job evs)) \<and>
    (length (filter is_new_job evs) < 2 ^ 24 \<longrightarrow>
       (\<forall>x. t_wait s = Finite x \<and> x \<noteq> 0 \<longrightarrow>
          rounded_quotient (scheduler_average_waiting_time s) x (length (filter is_new_job evs))) \<and>
       (\<forall>x. t_turnaround s = Finite x \<and> x \<noteq> 0 \<longrightarrow>
          rounded_quotient (scheduler_average_turnaround_time s) x
            (length (filter is_new_job evs))) \<and>
       (\<forall>x. t_response s = Finite x \<and> x \<noteq> 0 \<longrightarrow>
          rounded_quotient (scheduler_average_response_time s) x
            (length (filter is_new_job evs))))"
proof -
  define n where "n = length (filter is_new_job evs)"
  have "qinv (jobs (scheduler_start_up cores scheme))"
    by (simp add: scheduler_start_up_def qinv_init)
  from run_counts[OF assms this]
  have nj: "n_jobs s = int n"
    and l: "length (heap s) = n"
    and z: "None \<notin> set (heap s) \<longrightarrow>
              t_wait s = Finite 0 \<and> t_turnaround s = Finite 0 \<and> t_response s = Finite 0"
    by (auto simp: scheduler_start_up_def n_def)
  have pos: "float_nonzero (t_wait s) \<or> float_nonzero (t_turnaround s) \<or>
             float_nonzero (t_response s) \<longrightarrow> 0 < n"
  proof
    assume "float_nonzero (t_wait s) \<or> float_nonzero (t_turnaround s) \<or>
            float_nonzero (t_response s)"
    with z have "None \<in> set (heap s)" by auto
    then have "0 < length (heap s)" by (cases "heap s") auto
    with l show "0 < n" by simp
  qed
  have w: "scheduler_average_waiting_time s =
      (if float_nonzero (t_wait s) then float_div (t_wait s) (float_of_int (int n)) else Finite 0)"
    by (simp add: scheduler_average_waiting_time_def nj)
  have t: "scheduler_average_turnaround_time s =
      (if float_nonzero (t_turnaround s) then float_div (t_turnaround s) (float_of_int (int n))
       else Finite 0)"
    by (simp add: scheduler_average_turnaround_time_def nj)
  have r: "scheduler_average_response_time s =
      (if float_nonzero (t_response s) then float_div (t_response s) (float_of_int (int n))
       else Finite 0)"
    by (simp add: scheduler_average_response_time_def nj)
  have zero: "None \<notin> set (heap s) \<longrightarrow>
       t_wait s = Finite 0 \<and> t_turnaround s = Finite 0 \<and> t_response s = Finite 0 \<and>
       scheduler_average_waiting_time s = Finite 0 \<and>
       scheduler_average_turnaround_time s = Finite 0 \<and>
       scheduler_average_response_time s = Finite 0"
    using z w t r by simp
  have quot: "n < 2 ^ 24 \<longrightarrow>
       (\<forall>x. t_wait s = Finite x \<and> x \<noteq> 0 \<longrightarrow>
          rounded_quotient (scheduler_average_waiting_time s) x n) \<and>
       (\<forall>x. t_turnaround s = Finite x \<and> x \<noteq> 0 \<longrightarrow>
          rounded_quotient (scheduler_average_turnaround_time s) x n) \<and>
       (\<forall>x. t_response s = Finite x \<and> x \<noteq> 0 \<longrightarrow>
          rounded_quotient (scheduler_average_response_time s) x n)"
  proof (intro impI conjI allI)
    fix x assume n: "n < 2 ^ 24" and x: "t_wait s = Finite x \<and> x \<noteq> 0"
    with pos have "0 < n" by simp
    from float_div_rounded[OF _ this n, of x] x w
    show "rounded_quotient (scheduler_average_waiting_time s) x n" by simp
  next
    fix x assume n: "n < 2 ^ 24" and x: "t_turnaround s = Finite x \<and> x \<noteq> 0"
    with pos have "0 < n" by simp
    from float_div_rounded[OF _ this n, of x] x t
    show "rounded_quotient (scheduler_average_turnaround_time s) x n" by simp
  next
    fix x assume n: "n < 2 ^ 24" and x: "t_response s = Finite x \<and> x \<noteq> 0"
    with pos have "0 < n" by simp
    from float_div_rounded[OF _ this n, of x] x r
    show "rounded_quotient (scheduler_average_response_time s) x n" by simp
  qed
  from nj w t r zero pos quot show ?thesis
    unfolding n_def by (intro conjI)
qed

text \<open>
  Three arrivals and the completion of the first at time 5: the turnaround sum is 5, and
  the average turnaround is 5 / 3 rounded to binary32, which is 13981013 / 8388608. With
  one arrival and no completion the averages are \<open>+0\<close>.
\<close>

theorem average_times_witness:
  "(case run [New_job blk0 1 0 5 0, New_job blk0 2 1 3 0, New_job blk0 3 2 1 0, Job_finished 0 1 5]
          (scheduler_start_up 1 FCFS) of
      Inl e \<Rightarrow> False
    | Inr s \<Rightarrow> n_jobs s = 3 \<and> t_turnaround s = Finite 5 \<and> t_wait s = Finite 0 \<and>
        scheduler_average_turnaround_time s = float_div (Finite 5) (float_of_int 3) \<and>
        scheduler_average_turnaround_time s = Finite (13981013 / 8388608) \<and>
        \<bar>13981013 / 8388608 - 5 / (3::real)\<bar> \<le> 5 / 3 / 2 ^ 24 \<and>
        scheduler_average_waiting_time s = Finite 0) \<and>
   (case run [New_job blk0 1 0 5 0] (scheduler_start_up 1 FCFS) of
      Inl e \<Rightarrow> False
    | Inr s \<Rightarrow> None \<notin> set (heap s) \<and> scheduler_average_turnaround_time s = Finite 0)"
proof -
  let ?evs = "[New_job blk0 1 0 5 0, New_job blk0 2 1 3 0, New_job blk0 3 2 1 0, Job_finished 0 1 5]"
  obtain s where r: "run ?evs (scheduler_start_up 1 FCFS) = Inr s"
    by (simp add: sched_defs priqueue_defs Let_def eval_nat_numeral)
  have t: "t_turnaround s = Finite 5" "t_wait s = Finite 0"
    using r by (auto simp add: sched_defs priqueue_defs float_defs Let_def eval_nat_numeral)
  have three: "length (filter is_new_job ?evs) = 3" by (simp add: is_new_job_def)
  note inst = average_times[OF r, unfolded three]
  have lt: "(3::nat) < 2 ^ 24" and ne: "(5::real) \<noteq> 0" by simp_all
  from inst lt ne t(1) have q: "rounded_quotient (scheduler_average_turnaround_time s) 5 3"
    by blast
  from inst t have a: "n_jobs s = 3"
    "scheduler_average_turnaround_time s = float_div (Finite 5) (float_of_int 3)"
    "scheduler_average_waiting_time s = Finite 0"
    by simp_all
  have v: "round32 (5 / 3) = Finite (13981013 / 8388608)"
    by (simp add: float_defs)
  from q v have b: "scheduler_average_turnaround_time s = Finite (13981013 / 8388608)"
    by (simp add: rounded_quotient_def)
  have c: "\<bar>13981013 / 8388608 - 5 / (3::real)\<bar> \<le> 5 / 3 / 2 ^ 24" by simp
  obtain s' where r': "run [New_job blk0 1 0 5 0] (scheduler_start_up 1 FCFS) = Inr s'"
    by (simp add: sched_defs priqueue_defs Let_def eval_nat_numeral)
  have n: "None \<notin> set (heap s')"
    using r' by (auto simp add: sched_defs priqueue_defs Let_def eval_nat_numeral)
  from average_times[OF r'] n
  have 2: "None \<notin> set (heap s') \<and> scheduler_average_turnaround_time s' = Finite 0" by simp
  from a b c t 2 r r' show ?thesis by simp
qed

text \<open>
  The sums themselves are accumulated in single precision. A job that arrives at time
  16777216 and completes at time 16777217 adds \<^verbatim>\<open>(float)16777217 - 16777216\<close> to the
  turnaround sum, which is 0, since 16777217 is not a binary32 number and is converted to
  16777216.
\<close>

lemma turnaround_sum_is_rounded:
  "(case run [New_job blk0 1 16777216 1 0, Job_finished 0 1 16777217] (scheduler_start_up 1 FCFS) of
      Inl e \<Rightarrow> False
    | Inr s \<Rightarrow> t_turnaround s = Finite 0 \<and> scheduler_average_turnaround_time s = Finite 0)"
  by (simp add: sched_defs priqueue_defs float_defs scheduler_average_turnaround_time_def
      Let_def eval_nat_numeral)

section \<open>The search for an idle core\<close>

lemma free_core_ge: "i \<le> free_core cs i"
  by (induction cs i rule: free_core.induct) auto

lemma free_core_None:
  "free_core cs i < i + int (length cs) \<Longrightarrow> cs ! nat (free_core cs i - i) = None"
proof (induction cs i rule: free_core.induct)
  case (3 a cs i)
  have ge: "i + 1 \<le> free_core cs (i + 1)" by (rule free_core_ge)
  from 3 have "cs ! nat (free_core cs (i + 1) - (i + 1)) = None" by simp
  moreover from ge have "nat (free_core cs (i + 1) - i) = Suc (nat (free_core cs (i + 1) - (i + 1)))"
    by linarith
  ultimately show ?case by simp
qed simp_all

text \<open>The index found is the lowest index of an idle core.\<close>

lemma free_core_first:
  "k < nat (free_core cs i - i) \<Longrightarrow> k < length cs \<Longrightarrow> cs ! k \<noteq> None"
proof (induction cs i arbitrary: k rule: free_core.induct)
  case (3 a cs i)
  show ?case
  proof (cases k)
    case 0 then show ?thesis by simp
  next
    case (Suc k')
    have ge: "i + 1 \<le> free_core cs (i + 1)" by (rule free_core_ge)
    with "3.prems" Suc have "k' < nat (free_core cs (i + 1) - (i + 1))" by auto
    with "3.IH"[of k'] "3.prems" Suc show ?thesis by simp
  qed
qed simp_all

section \<open>Jobs that keep their core\<close>

lemma deref_free: "deref (h[a0 := None]) a = (if a = a0 \<and> a0 < length h then Inl UseAfterFree else deref h a)"
  by (auto simp: deref_def)

lemma new_job_keeps_core:
  assumes res: "scheduler_new_job blk n time rt prio s = Inr (r, s')"
    and sch: "t_scheme s \<noteq> PSJF" "t_scheme s \<noteq> PPRI"
    and qi: "qinv (jobs s)" and a: "deref (heap s) a = Inr j"
  shows "(\<exists>j'. deref (heap s') a = Inr j' \<and> ticked j j') \<and>
         (\<forall>i<length (c_job s). c_job s ! i \<noteq> None \<longrightarrow> c_job s' ! i = c_job s ! i)"
proof -
  let ?job = "length (heap s)"
  let ?s1 = "s\<lparr>heap := heap s @ [Some (new_block blk n time rt prio)], c_time := time, n_jobs := n_jobs s + 1\<rparr>"
  from scheduler_new_job_cases[OF res] obtain s2 j0 where
    inc: "increment_timestep ?s1 = Inr s2" and
    cases: "(r = free_core (c_job s2) 0 \<and> r < n_cores s2 \<and>
      enqueue (s2\<lparr>heap := (heap s2)[?job := Some (start_now (c_time s2) r j0)],
                  c_job := (c_job s2)[nat r := Some ?job]\<rparr>) ?job = Inr s')
     \<or> (\<not> free_core (c_job s2) 0 < n_cores s2 \<and> choose_victim s2 j0 = Inr r \<and> r \<noteq> - 1 \<and>
         (\<exists>va v. core_slot (c_job s2) r = Inr (Some va) \<and>
            deref ((heap s2)[?job := Some (start_now (c_time s2) r j0)]) va = Inr v \<and>
            enqueue (s2\<lparr>heap := (heap s2)[?job := Some (start_now (c_time s2) r j0),
                                         va := Some (evict (c_time s2) v)],
                        c_job := (c_job s2)[nat r := Some ?job]\<rparr>) ?job = Inr s'))
     \<or> (\<not> free_core (c_job s2) 0 < n_cores s2 \<and> choose_victim s2 j0 = Inr (- 1) \<and> r = - 1 \<and>
         enqueue s2 ?job = Inr s')"
    by blast
  from increment_timestep_shape[OF inc] obtain h2 where
    s2: "s2 = ?s1\<lparr>heap := h2\<rparr>" and tk: "heap_ticked (heap ?s1) h2" by blast
  from a have alt: "a < length (heap s)" by (simp add: deref_Inr)
  with a have "deref (heap ?s1) a = Inr j" by (simp add: deref_Inr nth_append)
  from heap_ticked_deref[OF tk this] obtain j' where j': "deref h2 a = Inr j'" "ticked j j'" by blast
  from sch s2 have nv: "choose_victim s2 j0 = Inr (- 1)" by (simp add: choose_victim_def)
  from cases nv have "(r = free_core (c_job s) 0 \<and> r < int (length (c_job s)) \<and>
      enqueue (s2\<lparr>heap := (heap s2)[?job := Some (start_now (c_time s2) r j0)],
                  c_job := (c_job s2)[nat r := Some ?job]\<rparr>) ?job = Inr s')
     \<or> enqueue s2 ?job = Inr s'"
    using s2 by (auto simp: n_cores_def)
  then show ?thesis
  proof (elim disjE conjE)
    assume r: "r = free_core (c_job s) 0" "r < int (length (c_job s))"
      and e: "enqueue (s2\<lparr>heap := (heap s2)[?job := Some (start_now (c_time s2) r j0)],
                  c_job := (c_job s2)[nat r := Some ?job]\<rparr>) ?job = Inr s'"
    from enqueue_shape[OF e] qi s2 obtain q' where
      s': "s' = s2\<lparr>heap := (heap s2)[?job := Some (start_now (c_time s2) r j0)],
                  c_job := (c_job s2)[nat r := Some ?job], jobs := q'\<rparr>"
      by auto
    from free_core_None[of "c_job s" 0] r have "c_job s ! nat r = None" by simp
    moreover from free_core_ge[of 0 "c_job s"] r have "nat r < length (c_job s)" by simp
    ultimately have "\<forall>i<length (c_job s). c_job s ! i \<noteq> None \<longrightarrow> (c_job s)[nat r := Some ?job] ! i = c_job s ! i"
      by (auto simp: nth_list_update)
    with s' s2 j' alt show ?thesis by (auto simp: deref_update)
  next
    assume e: "enqueue s2 ?job = Inr s'"
    from enqueue_shape[OF e] qi s2 obtain q' where "s' = s2\<lparr>jobs := q'\<rparr>" by auto
    with s2 j' show ?thesis by auto
  qed
qed

lemma job_finished_keeps_core:
  assumes res: "scheduler_job_finished core_id m time s = Inr (r, s')"
    and qi: "qinv (jobs s)" and a: "deref (heap s) a = Inr j"
    and pres: "\<exists>b\<in>set (qhead (jobs s)). \<exists>k. deref (heap s) b = Inr k \<and> job_id k = m"
    and on: "j_core j \<noteq> - 1" and other: "job_id j \<noteq> m"
  shows "(\<exists>j'. deref (heap s') a = Inr j' \<and> ticked j j') \<and>
         (\<forall>i<length (c_job s). int i \<noteq> core_id \<longrightarrow> c_job s' ! i = c_job s ! i)"
proof -
  from scheduler_job_finished_cases[OF res] obtain s1 a0 q j0 where
    inc: "increment_timestep (s\<lparr>c_time := time\<rparr>) = Inr s1" and
    fs: "finished_search (heap s1) (jobs s1) m 0 None = Inr (Some (Some a0), q)" and
    j0: "deref (heap s1) a0 = Inr j0" and cid: "0 \<le> core_id" and
    rest: "let s2 = (add_stats time j0 s1)\<lparr>jobs := q, heap := (heap s1)[a0 := None],
                                     c_job := (c_job s1)[nat core_id := None]\<rparr>
     in (r = - 1 \<and> s' = s2) \<or>
        (\<exists>i b nj. next_search (heap s2) q 0 None = Inr (i, Some b) \<and> i < priqueue_size q \<and>
           deref (heap s2) b = Inr nj \<and> r = job_id nj \<and>
           s' = s2\<lparr>heap := (heap s2)[b := Some (dispatch (c_time s2) core_id nj)],
                   c_job := (c_job s2)[nat core_id := Some b]\<rparr>)"
    by blast
  from increment_timestep_shape[OF inc] obtain h1 where
    s1: "s1 = s\<lparr>c_time := time, heap := h1\<rparr>" and tk: "heap_ticked (heap s) h1" by auto
  from s1 qi have q1: "qinv (jobs s1)" "jobs s1 = jobs s" by simp_all
  from heap_ticked_deref[OF tk a] obtain j' where j': "deref h1 a = Inr j'" "ticked j j'" by blast
  \<comment> \<open>the job found has the number asked for\<close>
  from pres obtain mm jm where mm: "mm < length (qhead (jobs s))"
      "deref (heap s) (qhead (jobs s) ! mm) = Inr jm" "job_id jm = m"
    by (auto simp: in_set_conv_nth)
  from heap_ticked_deref[OF tk mm(2)] s1 obtain jm' where
    "deref (heap s1) (qhead (jobs s) ! mm) = Inr jm'" "ticked jm jm'" by auto
  with mm(3) have ex: "deref (heap s1) (qhead (jobs s) ! mm) = Inr jm' \<and> job_id jm' = m"
    by (simp add: ticked_def)
  from finished_search_shape[OF fs q1(1)] q1(2) ex mm(1)
  obtain k jk where k: "k < length (qhead (jobs s))" "deref (heap s1) (qhead (jobs s) ! k) = Inr jk"
     "job_id jk = m" "a0 = qhead (jobs s) ! k" "q = removed (jobs s) k"
    by fastforce
  from k j0 have "job_id j0 = m" by simp
  with j' other s1 j0 have ne: "a \<noteq> a0" by (auto simp: ticked_def)
  let ?s2 = "(add_stats time j0 s1)\<lparr>jobs := q, heap := (heap s1)[a0 := None],
                                     c_job := (c_job s1)[nat core_id := None]\<rparr>"
  from j' ne s1 have a2: "deref (heap ?s2) a = Inr j'" by (simp add: deref_free add_stats_def)
  have c2: "\<forall>i<length (c_job s). int i \<noteq> core_id \<longrightarrow> c_job ?s2 ! i = c_job s ! i"
    using s1 cid by (auto simp: add_stats_def nth_list_update)
  have qq: "qinv q" using k qi by (simp add: qinv_removed)
  from rest have "s' = ?s2 \<or>
        (\<exists>i b nj. next_search (heap ?s2) q 0 None = Inr (i, Some b) \<and> i < priqueue_size q \<and>
           deref (heap ?s2) b = Inr nj \<and>
           s' = ?s2\<lparr>heap := (heap ?s2)[b := Some (dispatch (c_time ?s2) core_id nj)],
                   c_job := (c_job ?s2)[nat core_id := Some b]\<rparr>)"
    unfolding Let_def by blast
  then show ?thesis
  proof (elim disjE exE conjE)
    assume "s' = ?s2"
    with a2 c2 j' show ?thesis by auto
  next
    fix i b nj
    assume ns: "next_search (heap ?s2) q 0 None = Inr (i, Some b)" and i: "i < priqueue_size q"
      and nj: "deref (heap ?s2) b = Inr nj"
      and s': "s' = ?s2\<lparr>heap := (heap ?s2)[b := Some (dispatch (c_time ?s2) core_id nj)],
                   c_job := (c_job ?s2)[nat core_id := Some b]\<rparr>"
    from next_search_shape[OF ns qq] i nj have "j_core nj = - 1" by auto
    with a2 nj j' on have "b \<noteq> a" by (auto simp: ticked_def)
    with a2 s' have "deref (heap s') a = Inr j'" by (simp add: deref_update)
    moreover from c2 s' cid have "\<forall>i<length (c_job s). int i \<noteq> core_id \<longrightarrow> c_job s' ! i = c_job s ! i"
      by (auto simp: nth_list_update)
    ultimately show ?thesis using j' by auto
  qed
qed

text \<open>
  C7, as the code has it. Under every scheme but PSJF and PPRI, \<^verbatim>\<open>scheduler_new_job\<close>
  leaves the core field of every existing job and every occupied core slot as they were.
  \<^verbatim>\<open>scheduler_job_finished\<close>, called with the number of a queued job, leaves the core
  field of every job that is on a core and has another number as it was, together with
  every core slot but the one named in the call.
\<close>

theorem core_assignment_kept:
  assumes "t_scheme s \<noteq> PSJF" and "t_scheme s \<noteq> PPRI" and "qinv (jobs s)"
    and "deref (heap s) a = Inr j"
  shows "(scheduler_new_job blk n time rt prio s = Inr (r, s') \<longrightarrow>
            (\<exists>j'. deref (heap s') a = Inr j' \<and> j_core j' = j_core j) \<and>
            (\<forall>i<length (c_job s). c_job s ! i \<noteq> None \<longrightarrow> c_job s' ! i = c_job s ! i)) \<and>
         (scheduler_job_finished core_id m time' s = Inr (r', s'') \<longrightarrow>
            (\<exists>b\<in>set (qhead (jobs s)). \<exists>k. deref (heap s) b = Inr k \<and> job_id k = m) \<longrightarrow>
            j_core j \<noteq> - 1 \<longrightarrow> job_id j \<noteq> m \<longrightarrow>
            (\<exists>j'. deref (heap s'') a = Inr j' \<and> j_core j' = j_core j) \<and>
            (\<forall>i<length (c_job s). int i \<noteq> core_id \<longrightarrow> c_job s'' ! i = c_job s ! i))"
proof (intro conjI impI)
  assume "scheduler_new_job blk n time rt prio s = Inr (r, s')"
  from new_job_keeps_core[OF this assms]
  show "\<exists>j'. deref (heap s') a = Inr j' \<and> j_core j' = j_core j"
    and "\<forall>i<length (c_job s). c_job s ! i \<noteq> None \<longrightarrow> c_job s' ! i = c_job s ! i"
    by (auto simp: ticked_def)
next
  assume "scheduler_job_finished core_id m time' s = Inr (r', s'')"
    and "\<exists>b\<in>set (qhead (jobs s)). \<exists>k. deref (heap s) b = Inr k \<and> job_id k = m"
    and "j_core j \<noteq> - 1" and "job_id j \<noteq> m"
  from job_finished_keeps_core[OF this(1) assms(3,4) this(2,3,4)]
  show "\<exists>j'. deref (heap s'') a = Inr j' \<and> j_core j' = j_core j"
    and "\<forall>i<length (c_job s). int i \<noteq> core_id \<longrightarrow> c_job s'' ! i = c_job s ! i"
    by (auto simp: ticked_def)
qed

theorem core_assignment_kept_witness:
  "(case run [New_job blk0 1 0 5 0, New_job blk0 2 1 3 0] (scheduler_start_up 2 FCFS) of
      Inl e \<Rightarrow> False
    | Inr s \<Rightarrow>
        map_option j_core (heap s ! 0) = Some 0 \<and>
        (case scheduler_new_job blk0 3 2 4 0 s of
           Inl e \<Rightarrow> False
         | Inr (r, s') \<Rightarrow> map_option j_core (heap s' ! 0) = Some 0) \<and>
        (case scheduler_job_finished 1 2 4 s of
           Inl e \<Rightarrow> False
         | Inr (r, s') \<Rightarrow> map_option j_core (heap s' ! 0) = Some 0))"
proof -
  obtain s where s: "run [New_job blk0 1 0 5 0, New_job blk0 2 1 3 0] (scheduler_start_up 2 FCFS) = Inr s"
    by (simp add: sched_defs priqueue_defs Let_def eval_nat_numeral)
  then have sch: "t_scheme s \<noteq> PSJF" "t_scheme s \<noteq> PPRI" and qi: "qinv (jobs s)"
    by (auto simp add: sched_defs priqueue_defs Let_def eval_nat_numeral qinv_def)
  from s obtain j where j: "deref (heap s) 0 = Inr j" and jc: "j_core j = 0" and ji: "job_id j = 1"
    by (auto simp add: sched_defs priqueue_defs Let_def eval_nat_numeral)
  from s have pres: "\<exists>b\<in>set (qhead (jobs s)). \<exists>k. deref (heap s) b = Inr k \<and> job_id k = 2"
    by (auto simp add: sched_defs priqueue_defs Let_def eval_nat_numeral)
  from s obtain r1 s1 where n: "scheduler_new_job blk0 3 2 4 0 s = Inr (r1, s1)"
    by (auto simp add: sched_defs priqueue_defs Let_def eval_nat_numeral)
  from s obtain r2 s2 where f: "scheduler_job_finished 1 2 4 s = Inr (r2, s2)"
    by (auto simp add: sched_defs priqueue_defs Let_def eval_nat_numeral)
  note inst = core_assignment_kept[OF sch qi j, where blk=blk0 and n=3 and time=2 and rt=4 and prio=0
      and r=r1 and s'=s1 and core_id=1 and m=2 and time'=4 and r'=r2 and s''=s2]
  from inst n jc have 1: "map_option j_core (heap s1 ! 0) = Some 0"
    by (auto simp: deref_Inr)
  from inst f pres jc ji have 2: "map_option j_core (heap s2 ! 0) = Some 0"
    by (auto simp: deref_Inr)
  from j jc have 0: "map_option j_core (heap s ! 0) = Some 0" by (auto simp: deref_Inr)
  from s n f 0 1 2 show ?thesis by simp
qed

text \<open>
  C7 as stated covers RR, whose quantum expiry takes an unfinished job off its core: on
  one core under RR, with job 1 running and job 2 queued, \<^verbatim>\<open>scheduler_quantum_expired(0, 2)\<close>
  gives the core to job 2 and requeues job 1 with 3 time units left and no core.
\<close>

theorem round_robin_moves_running_job:
  "(case run [New_job blk0 1 0 5 0, New_job blk0 2 1 3 0] (scheduler_start_up 1 RR) of
      Inl e \<Rightarrow> False
    | Inr s \<Rightarrow>
        t_scheme s = RR \<and> c_job s = [Some 0] \<and> map_option j_core (heap s ! 0) = Some 0 \<and>
        (case scheduler_quantum_expired 0 2 s of
           Inl e \<Rightarrow> False
         | Inr (r, s') \<Rightarrow>
             r = 2 \<and> c_job s' = [Some 1] \<and> map_option j_core (heap s' ! 0) = Some (- 1) \<and>
             map_option t_remaining (heap s' ! 0) = Some 3 \<and> qhead (jobs s') = [1, 0]))"
  by (simp add: blk0_def sched_defs priqueue_defs Let_def eval_nat_numeral)

section \<open>The PPRI scan\<close>

lemma drop_eq_ConsD:
  assumes "c # cs = drop b xs"
  shows "b < length xs \<and> c = xs ! b \<and> cs = drop (Suc b) xs"
proof -
  from assms have b: "b < length xs" by (cases "b < length xs") auto
  then have "drop b xs = xs ! b # drop (Suc b) xs" by (simp add: Cons_nth_drop_Suc)
  with assms b show ?thesis by simp
qed

lemma core_job_nth:
  "0 \<le> c \<Longrightarrow> nat c < length cores \<Longrightarrow> core_job h cores c = deref_ptr h (cores ! nat c)"
  by (auto simp: core_job_def core_slot_def)

lemma ppri_scan_victim:
  assumes "ppri_scan h cores prio cs i ctc cp = Inr r"
    and "cs = drop b cores" and "i = int b" and "b \<le> length cores"
    and "(ctc = - 1 \<and> cp = - 1 \<and> (\<forall>m<b. \<forall>j. deref_ptr h (cores ! m) = Inr j \<longrightarrow> \<not> prio < priority j))
         \<or> (0 \<le> ctc \<and> ppri_victim h cores prio b (nat ctc) \<and>
             (\<exists>v. deref_ptr h (cores ! nat ctc) = Inr v \<and> cp = priority v))"
    and "- 1 \<le> prio"
  shows "(r = - 1 \<and> (\<forall>m<length cores. \<forall>j. deref_ptr h (cores ! m) = Inr j \<longrightarrow> \<not> prio < priority j))
         \<or> (0 \<le> r \<and> ppri_victim h cores prio (length cores) (nat r))"
  using assms
proof (induction cs arbitrary: b i ctc cp)
  case Nil
  then have "b = length cores" by simp
  with Nil show ?case by (auto simp: )
next
  case (Cons c cs)
  from Cons.prems(2) have blt: "b < length cores" and c: "c = cores ! b" and cs: "cs = drop (Suc b) cores"
    using drop_eq_ConsD[of c cs b cores] by simp_all
  from Cons.prems(1) obtain cj where cj: "deref_ptr h c = Inr cj"
    by (auto split: sum.splits)
  note acc = Cons.prems(5)
  have i1: "i + 1 = int (Suc b)" using Cons.prems(3) by simp
  have sb: "Suc b \<le> length cores" using blt by simp
  \<comment> \<open>the three ways the accumulator can move\<close>
  have keep_ok: "(ctc = - 1 \<and> cp = - 1 \<and> (\<forall>m<Suc b. \<forall>j. deref_ptr h (cores ! m) = Inr j \<longrightarrow> \<not> prio < priority j))
         \<or> (0 \<le> ctc \<and> ppri_victim h cores prio (Suc b) (nat ctc) \<and>
             (\<exists>v. deref_ptr h (cores ! nat ctc) = Inr v \<and> cp = priority v))"
    if le: "prio < priority cj \<longrightarrow> priority cj \<le> cp \<and> cp \<noteq> - 1 \<and>
              (priority cj = cp \<longrightarrow> (\<forall>v. deref_ptr h (cores ! nat ctc) = Inr v \<longrightarrow> t_arrival cj \<le> t_arrival v))"
  proof -
    from acc show ?thesis
    proof
      assume a: "ctc = - 1 \<and> cp = - 1 \<and> (\<forall>m<b. \<forall>j. deref_ptr h (cores ! m) = Inr j \<longrightarrow> \<not> prio < priority j)"
      with le have "\<not> prio < priority cj" by auto
      with a cj c have "\<forall>m<Suc b. \<forall>j. deref_ptr h (cores ! m) = Inr j \<longrightarrow> \<not> prio < priority j"
        by (auto simp: less_Suc_eq)
      with a show ?thesis by simp
    next
      assume a: "0 \<le> ctc \<and> ppri_victim h cores prio b (nat ctc) \<and>
             (\<exists>v. deref_ptr h (cores ! nat ctc) = Inr v \<and> cp = priority v)"
      then obtain v where v: "deref_ptr h (cores ! nat ctc) = Inr v" "cp = priority v" by blast
      from a v le cj c have "ppri_victim h cores prio (Suc b) (nat ctc)"
        unfolding ppri_victim_def by (auto simp: less_Suc_eq)
      with a show ?thesis by blast
    qed
  qed
  have take_ok: "(0 \<le> i \<and> ppri_victim h cores prio (Suc b) (nat i) \<and>
             (\<exists>v. deref_ptr h (cores ! nat i) = Inr v \<and> cp' = priority v))"
    if cand: "prio < priority cj" and cp': "cp' = priority cj"
      and better: "(\<forall>m<b. \<forall>j. deref_ptr h (cores ! m) = Inr j \<longrightarrow> prio < priority j \<longrightarrow>
           priority j \<le> priority cj \<and> (priority j = priority cj \<longrightarrow> t_arrival j \<le> t_arrival cj))"
    for cp'
  proof -
    have "nat i = b" using Cons.prems(3) by simp
    moreover have "ppri_victim h cores prio (Suc b) b"
      unfolding ppri_victim_def using cj c cand better by (auto simp: less_Suc_eq)
    ultimately show ?thesis using cj c cp' Cons.prems(3) by simp
  qed
  show ?case
  proof (cases "prio < priority cj")
    case False
    with Cons.prems(1) cj have rec: "ppri_scan h cores prio cs (i + 1) ctc cp = Inr r" by simp
    from False have "prio < priority cj \<longrightarrow> priority cj \<le> cp \<and> cp \<noteq> - 1 \<and>
              (priority cj = cp \<longrightarrow> (\<forall>v. deref_ptr h (cores ! nat ctc) = Inr v \<longrightarrow> t_arrival cj \<le> t_arrival v))"
      by simp
    from Cons.IH[OF rec cs i1 sb keep_ok[OF this] Cons.prems(6)] show ?thesis .
  next
    case cand: True
    show ?thesis
    proof (cases "cp < priority cj")
      case True
      with Cons.prems(1) cj cand have rec: "ppri_scan h cores prio cs (i + 1) i (priority cj) = Inr r" by simp
      have better: "\<forall>m<b. \<forall>j. deref_ptr h (cores ! m) = Inr j \<longrightarrow> prio < priority j \<longrightarrow>
           priority j \<le> priority cj \<and> (priority j = priority cj \<longrightarrow> t_arrival j \<le> t_arrival cj)"
        using acc True unfolding ppri_victim_def by fastforce
      from take_ok[OF cand refl better]
      have "(i = - 1 \<and> priority cj = - 1 \<and> (\<forall>m<Suc b. \<forall>j. deref_ptr h (cores ! m) = Inr j \<longrightarrow> \<not> prio < priority j))
         \<or> (0 \<le> i \<and> ppri_victim h cores prio (Suc b) (nat i) \<and>
             (\<exists>v. deref_ptr h (cores ! nat i) = Inr v \<and> priority cj = priority v))"
        by blast
      from Cons.IH[OF rec cs i1 sb this Cons.prems(6)] show ?thesis .
    next
      case nb: False
      \<comment> \<open>the accumulator holds a core: the sentinel -1 is below every candidate\<close>
      from cand Cons.prems(6) nb have cpne: "cp \<noteq> - 1" by linarith
      with acc have a: "0 \<le> ctc" "ppri_victim h cores prio b (nat ctc)"
        and "\<exists>v. deref_ptr h (cores ! nat ctc) = Inr v \<and> cp = priority v" by auto
      then obtain ov where ov: "deref_ptr h (cores ! nat ctc) = Inr ov" "cp = priority ov" by blast
      from a(2) blt have "nat ctc < length cores" by (simp add: ppri_victim_def)
      with a(1) ov have oj: "core_job h cores ctc = Inr ov" by (simp add: core_job_nth)
      show ?thesis
      proof (cases "priority cj = cp \<and> t_arrival ov < t_arrival cj")
        case True
        with Cons.prems(1) cj cand nb oj have rec: "ppri_scan h cores prio cs (i + 1) i cp = Inr r" by simp
        have better: "\<forall>m<b. \<forall>j. deref_ptr h (cores ! m) = Inr j \<longrightarrow> prio < priority j \<longrightarrow>
           priority j \<le> priority cj \<and> (priority j = priority cj \<longrightarrow> t_arrival j \<le> t_arrival cj)"
          using a(2) True ov unfolding ppri_victim_def by fastforce
        from True have "cp = priority cj" by simp
        from take_ok[OF cand this better]
        have "(i = - 1 \<and> cp = - 1 \<and> (\<forall>m<Suc b. \<forall>j. deref_ptr h (cores ! m) = Inr j \<longrightarrow> \<not> prio < priority j))
         \<or> (0 \<le> i \<and> ppri_victim h cores prio (Suc b) (nat i) \<and>
             (\<exists>v. deref_ptr h (cores ! nat i) = Inr v \<and> cp = priority v))"
          by blast
        from Cons.IH[OF rec cs i1 sb this Cons.prems(6)] show ?thesis .
      next
        case False
        with Cons.prems(1) cj cand nb oj have rec: "ppri_scan h cores prio cs (i + 1) ctc cp = Inr r"
          by (auto split: if_splits)
        from False nb cpne ov have "prio < priority cj \<longrightarrow> priority cj \<le> cp \<and> cp \<noteq> - 1 \<and>
              (priority cj = cp \<longrightarrow> (\<forall>v. deref_ptr h (cores ! nat ctc) = Inr v \<longrightarrow> t_arrival cj \<le> t_arrival v))"
          by auto
        from Cons.IH[OF rec cs i1 sb keep_ok[OF this] Cons.prems(6)] show ?thesis .
      qed
    qed
  qed
qed

lemma free_core_busy: "\<forall>c\<in>set cs. c \<noteq> None \<Longrightarrow> free_core cs i = i + int (length cs)"
  by (induction cs i rule: free_core.induct) auto

text \<open>
  C4, as the code has it. Under PPRI, with every core holding a live job that has started,
  an arriving job whose priority number is at least -1, and at least one running job with
  a larger priority number: \<^verbatim>\<open>scheduler_new_job\<close> returns the index of a core whose job
  has the largest priority number among the running jobs with a larger number than the
  arriving job's and, among those with that number, the latest arrival time. The arriving
  job (the block at the next free address) is put in that core slot, is in the queue and
  records the core; the evicted job has its core unset, and its start time is unset if it
  was the current time and kept otherwise.
\<close>

theorem ppri_preemption:
  assumes sch: "t_scheme s = PPRI"
    and qi: "qinv (jobs s)"
    and busy: "\<forall>i<length (c_job s). \<exists>a v. c_job s ! i = Some a \<and> deref (heap s) a = Inr v \<and> t_started v \<noteq> - 1"
    and prio: "- 1 \<le> prio"
    and cand: "\<exists>i<length (c_job s). \<exists>a v. c_job s ! i = Some a \<and> deref (heap s) a = Inr v \<and> prio < priority v"
    and res: "scheduler_new_job blk n time rt prio s = Inr (r, s')"
  shows "0 \<le> r \<and> nat r < length (c_job s) \<and>
     (\<exists>va v. c_job s ! nat r = Some va \<and> deref (heap s) va = Inr v \<and> prio < priority v \<and>
        (\<forall>i<length (c_job s). \<forall>a j. c_job s ! i = Some a \<and> deref (heap s) a = Inr j \<and> prio < priority j \<longrightarrow>
           priority j \<le> priority v \<and> (priority j = priority v \<longrightarrow> t_arrival j \<le> t_arrival v)) \<and>
        c_job s' = (c_job s)[nat r := Some (length (heap s))] \<and>
        length (heap s) \<in> set (qhead (jobs s')) \<and>
        (\<exists>nj. deref (heap s') (length (heap s)) = Inr nj \<and> job_id nj = n \<and> j_core nj = r) \<and>
        (\<exists>v'. deref (heap s') va = Inr v' \<and> j_core v' = - 1 \<and>
              t_started v' = (if t_started v = time then - 1 else t_started v)))"
proof -
  let ?job = "length (heap s)"
  let ?nb = "new_block blk n time rt prio"
  let ?s1 = "s\<lparr>heap := heap s @ [Some ?nb], c_time := time, n_jobs := n_jobs s + 1\<rparr>"
  from scheduler_new_job_cases[OF res] obtain s2 j where
    inc: "increment_timestep ?s1 = Inr s2" and j: "deref (heap s2) ?job = Inr j" and
    cases: "(r = free_core (c_job s2) 0 \<and> r < n_cores s2 \<and>
      enqueue (s2\<lparr>heap := (heap s2)[?job := Some (start_now (c_time s2) r j)],
                  c_job := (c_job s2)[nat r := Some ?job]\<rparr>) ?job = Inr s')
     \<or> (\<not> free_core (c_job s2) 0 < n_cores s2 \<and> choose_victim s2 j = Inr r \<and> r \<noteq> - 1 \<and>
         (\<exists>va v. core_slot (c_job s2) r = Inr (Some va) \<and>
            deref ((heap s2)[?job := Some (start_now (c_time s2) r j)]) va = Inr v \<and>
            enqueue (s2\<lparr>heap := (heap s2)[?job := Some (start_now (c_time s2) r j),
                                         va := Some (evict (c_time s2) v)],
                        c_job := (c_job s2)[nat r := Some ?job]\<rparr>) ?job = Inr s'))
     \<or> (\<not> free_core (c_job s2) 0 < n_cores s2 \<and> choose_victim s2 j = Inr (- 1) \<and> r = - 1 \<and>
         enqueue s2 ?job = Inr s')"
    by blast
  from increment_timestep_shape[OF inc] obtain h2 where
    s2: "s2 = ?s1\<lparr>heap := h2\<rparr>" and tk: "heap_ticked (heap ?s1) h2" by blast
  \<comment> \<open>the blocks of the old jobs after the clock advance\<close>
  have old: "\<exists>j'. deref h2 a = Inr j' \<and> ticked j0 j'" if "deref (heap s) a = Inr j0" for a j0
  proof -
    from that have "deref (heap ?s1) a = Inr j0" by (simp add: deref_Inr nth_append)
    from heap_ticked_deref[OF tk this] show ?thesis .
  qed
  have "deref (heap ?s1) ?job = Inr ?nb" by (simp add: deref_Inr)
  from heap_ticked_deref[OF tk this] j s2 have tj: "ticked ?nb j" by auto
  then have pj: "priority j = prio" and idj: "job_id j = n" by (simp_all add: ticked_def new_block_def)
  \<comment> \<open>no core is free\<close>
  from busy have "\<forall>c\<in>set (c_job s). c \<noteq> None" by (fastforce simp: in_set_conv_nth)
  then have "free_core (c_job s) 0 = int (length (c_job s))" by (simp add: free_core_busy)
  with s2 have nofree: "\<not> free_core (c_job s2) 0 < n_cores s2" by (simp add: n_cores_def)
  \<comment> \<open>the scan\<close>
  from cases nofree obtain cv where cv: "choose_victim s2 j = Inr cv" by auto
  with sch s2 pj have scan: "ppri_scan h2 (c_job s) prio (c_job s) 0 (- 1) (- 1) = Inr cv"
    by (simp add: choose_victim_def)
  have "(cv = - 1 \<and> (\<forall>m<length (c_job s). \<forall>j. deref_ptr h2 (c_job s ! m) = Inr j \<longrightarrow> \<not> prio < priority j))
         \<or> (0 \<le> cv \<and> ppri_victim h2 (c_job s) prio (length (c_job s)) (nat cv))"
    by (rule ppri_scan_victim[OF scan, of 0]) (simp_all add: prio)
  moreover
  from cand obtain ic ac vc where ic: "ic < length (c_job s)" "c_job s ! ic = Some ac"
      "deref (heap s) ac = Inr vc" "prio < priority vc" by blast
  from old[OF ic(3)] obtain vc' where "deref h2 ac = Inr vc'" "ticked vc vc'" by blast
  with ic have "deref_ptr h2 (c_job s ! ic) = Inr vc' \<and> prio < priority vc'"
    by (simp add: deref_ptr_def ticked_def)
  with ic(1) have "\<not> (\<forall>m<length (c_job s). \<forall>j. deref_ptr h2 (c_job s ! m) = Inr j \<longrightarrow> \<not> prio < priority j)"
    by blast
  ultimately have cv0: "0 \<le> cv" and vic: "ppri_victim h2 (c_job s) prio (length (c_job s)) (nat cv)"
    by auto
  from cv0 have "cv \<noteq> - 1" by simp
  with cases nofree cv obtain va v2 where
    r: "r = cv" and
    slot: "core_slot (c_job s2) r = Inr (Some va)" and
    v2: "deref ((heap s2)[?job := Some (start_now (c_time s2) r j)]) va = Inr v2" and
    e: "enqueue (s2\<lparr>heap := (heap s2)[?job := Some (start_now (c_time s2) r j),
                                         va := Some (evict (c_time s2) v2)],
                        c_job := (c_job s2)[nat r := Some ?job]\<rparr>) ?job = Inr s'"
    by auto
  from vic r have rlt: "nat r < length (c_job s)" by (simp add: ppri_victim_def)
  from slot s2 cv0 r have cva: "c_job s ! nat r = Some va"
    by (auto simp: core_slot_def split: if_splits)
  from busy rlt cva obtain v where v: "deref (heap s) va = Inr v" "t_started v \<noteq> - 1" by fastforce
  then have valt: "va < length (heap s)" by (simp add: deref_Inr)
  from old[OF v(1)] obtain v' where v': "deref h2 va = Inr v'" "ticked v v'" by blast
  from v2 valt s2 v' have v2eq: "v2 = v'" by (simp add: deref_update)
  \<comment> \<open>the victim is the best candidate, in terms of the state before the call\<close>
  from vic r cva v' have
    best: "prio < priority v' \<and>
        (\<forall>m<length (c_job s). \<forall>j. deref_ptr h2 (c_job s ! m) = Inr j \<longrightarrow> prio < priority j \<longrightarrow>
           priority j \<le> priority v' \<and> (priority j = priority v' \<longrightarrow> t_arrival j \<le> t_arrival v'))"
    by (auto simp: ppri_victim_def deref_ptr_def)
  have best_s: "\<forall>i<length (c_job s). \<forall>a j. c_job s ! i = Some a \<and> deref (heap s) a = Inr j \<and> prio < priority j \<longrightarrow>
           priority j \<le> priority v \<and> (priority j = priority v \<longrightarrow> t_arrival j \<le> t_arrival v)"
  proof (intro allI impI)
    fix i a j0
    assume i: "i < length (c_job s)"
      and a: "c_job s ! i = Some a \<and> deref (heap s) a = Inr j0 \<and> prio < priority j0"
    from old[of a j0] a obtain j0' where "deref h2 a = Inr j0'" "ticked j0 j0'" by blast
    with a have "deref_ptr h2 (c_job s ! i) = Inr j0'" "prio < priority j0'"
      "priority j0' = priority j0" "t_arrival j0' = t_arrival j0"
      by (simp_all add: deref_ptr_def ticked_def)
    with best i have "priority j0 \<le> priority v' \<and> (priority j0 = priority v' \<longrightarrow> t_arrival j0 \<le> t_arrival v')"
      by fastforce
    with v'(2) show "priority j0 \<le> priority v \<and> (priority j0 = priority v \<longrightarrow> t_arrival j0 \<le> t_arrival v)"
      by (simp add: ticked_def)
  qed
  \<comment> \<open>the state after the call\<close>
  from enqueue_shape[OF e] qi s2 obtain ys zs where
    s': "s' = s2\<lparr>heap := (heap s2)[?job := Some (start_now (c_time s2) r j), va := Some (evict (c_time s2) v2)],
                  c_job := (c_job s2)[nat r := Some ?job],
                  jobs := (jobs s)\<lparr>qhead := ys @ ?job # zs, qsize := qsize (jobs s) + 1\<rparr>\<rparr>"
    by auto
  from tk have len2: "length h2 = Suc (length (heap s))" by (simp add: heap_ticked_def)
  have c1: "c_job s' = (c_job s)[nat r := Some ?job]" using s' s2 by simp
  have c2: "?job \<in> set (qhead (jobs s'))" using s' by simp
  have c3: "\<exists>nj. deref (heap s') ?job = Inr nj \<and> job_id nj = n \<and> j_core nj = r"
    using s' s2 valt len2 idj by (simp add: deref_update start_now_def)
  have c4: "\<exists>w. deref (heap s') va = Inr w \<and> j_core w = - 1 \<and>
              t_started w = (if t_started v = time then - 1 else t_started v)"
  proof -
    from s' s2 valt len2 have "deref (heap s') va = Inr (evict time v2)" by (simp add: deref_update)
    moreover from v'(2) v(2) v2eq have "t_started v2 = t_started v" by (simp add: ticked_def)
    ultimately show ?thesis by (simp add: evict_def Let_def)
  qed
  from best v'(2) have c0: "prio < priority v" by (simp add: ticked_def)
  from cv0 r rlt cva v(1) c0 best_s c1 c2 c3 c4 show ?thesis by blast
qed

theorem ppri_preemption_witness:
  "(case run [New_job blk0 1 0 9 3, New_job blk0 2 1 9 3] (scheduler_start_up 2 PPRI) of
      Inl e \<Rightarrow> False
    | Inr s \<Rightarrow>
        c_job s = [Some 0, Some 1] \<and>
        (case scheduler_new_job blk0 3 2 9 1 s of
           Inl e \<Rightarrow> False
         | Inr (r, s') \<Rightarrow>
             r = 1 \<and> c_job s' = [Some 0, Some 2] \<and> 2 \<in> set (qhead (jobs s')) \<and>
             map_option j_core (heap s' ! 1) = Some (- 1) \<and>
             map_option t_started (heap s' ! 1) = Some 1))"
proof -
  obtain s where s: "run [New_job blk0 1 0 9 3, New_job blk0 2 1 9 3] (scheduler_start_up 2 PPRI) = Inr s"
    by (simp add: sched_defs priqueue_defs Let_def eval_nat_numeral)
  then have sch: "t_scheme s = PPRI" and qi: "qinv (jobs s)" and cj: "c_job s = [Some 0, Some 1]"
    and hl: "length (heap s) = 2"
    by (auto simp add: sched_defs priqueue_defs Let_def eval_nat_numeral qinv_def)
  from s obtain j0 j1 where j0: "deref (heap s) 0 = Inr j0" "t_started j0 = 0" "priority j0 = 3"
    and j1: "deref (heap s) 1 = Inr j1" "t_started j1 = 1" "priority j1 = 3"
    by (auto simp add: blk0_def sched_defs priqueue_defs Let_def eval_nat_numeral)
  have busy: "\<forall>i<length (c_job s). \<exists>a v. c_job s ! i = Some a \<and> deref (heap s) a = Inr v \<and> t_started v \<noteq> - 1"
    using cj j0 j1 by (auto simp: less_Suc_eq)
  have cand: "\<exists>i<length (c_job s). \<exists>a v. c_job s ! i = Some a \<and> deref (heap s) a = Inr v \<and> 1 < priority v"
    using cj j0 by (intro exI[of _ 0]) auto
  from s obtain s' where n: "scheduler_new_job blk0 3 2 9 1 s = Inr (1, s')"
    by (auto simp add: blk0_def sched_defs priqueue_defs Let_def eval_nat_numeral)
  from ppri_preemption[OF sch qi busy _ cand n] cj hl j1
  have "c_job s' = [Some 0, Some 2] \<and> 2 \<in> set (qhead (jobs s')) \<and>
        (\<exists>v'. deref (heap s') 1 = Inr v' \<and> j_core v' = - 1 \<and> t_started v' = 1)"
    by auto
  then have "c_job s' = [Some 0, Some 2] \<and> 2 \<in> set (qhead (jobs s')) \<and>
             map_option j_core (heap s' ! 1) = Some (- 1) \<and>
             map_option t_started (heap s' ! 1) = Some 1"
    by (auto simp: deref_Inr)
  with s cj n show ?thesis by simp
qed

text \<open>
  C4 as stated covers every priority number, but the scan starts from the sentinel
  \<^verbatim>\<open>corepriority = -1\<close> and takes a core only when its job's priority number is above
  the sentinel. On one core running a job of priority -3, an arriving job of priority -5
  evicts nothing: the call returns -1 and the core keeps its job.
\<close>

theorem ppri_negative_priority_not_evicted:
  "(case run [New_job blk0 1 0 9 (- 3)] (scheduler_start_up 1 PPRI) of
      Inl e \<Rightarrow> False
    | Inr s \<Rightarrow>
        t_scheme s = PPRI \<and> c_job s = [Some 0] \<and> map_option priority (heap s ! 0) = Some (- 3) \<and>
        (case scheduler_new_job blk0 2 1 9 (- 5) s of
           Inl e \<Rightarrow> False
         | Inr (r, s') \<Rightarrow>
             r = - 1 \<and> c_job s' = [Some 0] \<and> map_option priority (heap s' ! 1) = Some (- 5) \<and>
             map_option j_core (heap s' ! 1) = Some (- 1)))"
  by (simp add: blk0_def sched_defs priqueue_defs Let_def eval_nat_numeral)

section \<open>How the invariant moves\<close>

lemma inv_exceptD_queue: "inv_except h q cs c \<Longrightarrow> queue_ok h q"
  by (simp add: inv_except_def)

lemma inv_except_weaken: "inv_except h q cs (- 1) \<Longrightarrow> inv_except h q cs c"
  by (simp add: inv_except_def)

text \<open>Slots of different cores hold different jobs.\<close>

lemma slot_ok_distinct:
  "slot_ok h q cs i \<Longrightarrow> slot_ok h q cs k \<Longrightarrow> cs ! i = Some a \<Longrightarrow> cs ! k = Some a \<Longrightarrow> i = k"
  by (auto simp: slot_ok_def)

text \<open>A clock advance.\<close>

lemma queue_ok_ticked:
  assumes "queue_ok h q" "heap_ticked h h'"
  shows "queue_ok h' q"
  unfolding queue_ok_def
proof (intro conjI ballI allI impI)
  show "qinv q" "distinct (qhead q)" using assms by (simp_all add: queue_ok_def)
next
  fix a assume "a \<in> set (qhead q)"
  with assms(1) obtain j where "deref h a = Inr j" by (auto simp: queue_ok_def)
  from heap_ticked_deref[OF assms(2) this] show "\<exists>j. deref h' a = Inr j" by blast
next
  fix a b ja jb
  assume ab: "a \<in> set (qhead q)" "b \<in> set (qhead q)"
    and d: "deref h' a = Inr ja" "deref h' b = Inr jb" "job_id ja = job_id jb"
  from heap_ticked_deref_rev[OF assms(2) d(1)] obtain ja0 where a0: "deref h a = Inr ja0" "ticked ja0 ja" by blast
  from heap_ticked_deref_rev[OF assms(2) d(2)] obtain jb0 where b0: "deref h b = Inr jb0" "ticked jb0 jb" by blast
  from a0 b0 d(3) have "job_id ja0 = job_id jb0" by (simp add: ticked_def)
  with assms(1) ab a0 b0 show "a = b" unfolding queue_ok_def by blast
qed

lemma slot_ok_ticked:
  assumes "slot_ok h q cs i" "heap_ticked h h'"
  shows "slot_ok h' q cs i"
  unfolding slot_ok_def
proof (intro allI impI)
  fix a assume "cs ! i = Some a"
  with assms(1) obtain j where a: "a \<in> set (qhead q)" and j: "deref h a = Inr j" "j_core j = int i" "t_started j \<noteq> - 1"
    by (auto simp: slot_ok_def)
  from heap_ticked_deref[OF assms(2) j(1)] obtain j' where "deref h' a = Inr j'" "ticked j j'" by blast
  with a j show "a \<in> set (qhead q) \<and> (\<exists>j. deref h' a = Inr j \<and> j_core j = int i \<and> t_started j \<noteq> - 1)"
    by (auto simp: ticked_def)
qed

lemma inv_except_ticked: "inv_except h q cs c \<Longrightarrow> heap_ticked h h' \<Longrightarrow> inv_except h' q cs c"
  by (auto simp: inv_except_def intro: queue_ok_ticked slot_ok_ticked)

text \<open>A block is rewritten, its job number kept; the job is on no core but possibly \<open>c\<close>.\<close>

lemma inv_except_update:
  assumes inv: "inv_except h q cs c" and old: "deref h b = Inr jo" and id: "job_id jn = job_id jo"
    and off: "\<forall>i<length cs. int i \<noteq> c \<longrightarrow> cs ! i \<noteq> Some b"
  shows "inv_except (h[b := Some jn]) q cs c"
proof -
  from old have blt: "b < length h" by (simp add: deref_Inr)
  have d: "deref (h[b := Some jn]) a = (if a = b then Inr jn else deref h a)" for a
    using blt by (simp add: deref_update)
  from inv have qo: "queue_ok h q" by (simp add: inv_except_def)
  have "queue_ok (h[b := Some jn]) q"
    unfolding queue_ok_def
  proof (intro conjI ballI allI impI)
    show "qinv q" "distinct (qhead q)" using qo by (simp_all add: queue_ok_def)
  next
    fix a assume "a \<in> set (qhead q)"
    with qo show "\<exists>j. deref (h[b := Some jn]) a = Inr j" by (auto simp: queue_ok_def d)
  next
    fix a a' ja jb
    assume ab: "a \<in> set (qhead q)" "a' \<in> set (qhead q)"
      and dd: "deref (h[b := Some jn]) a = Inr ja" "deref (h[b := Some jn]) a' = Inr jb" "job_id ja = job_id jb"
    have "\<exists>ja0. deref h a = Inr ja0 \<and> job_id ja0 = job_id ja"
      using dd(1) old id by (cases "a = b") (auto simp: d)
    moreover have "\<exists>jb0. deref h a' = Inr jb0 \<and> job_id jb0 = job_id jb"
      using dd(2) old id by (cases "a' = b") (auto simp: d)
    ultimately show "a = a'" using qo ab dd(3) unfolding queue_ok_def by metis
  qed
  moreover have "slot_ok (h[b := Some jn]) q cs i" if "i < length cs" "int i \<noteq> c" for i
  proof -
    from inv that have "slot_ok h q cs i" by (simp add: inv_except_def)
    moreover from off that have "cs ! i \<noteq> Some b" by simp
    ultimately show ?thesis by (auto simp: slot_ok_def d)
  qed
  ultimately show ?thesis by (simp add: inv_except_def)
qed

text \<open>Core \<open>c\<close> is given a queued job that records it.\<close>

lemma inv_except_install:
  assumes inv: "inv_except h q cs c" and c: "0 \<le> c" "c < int (length cs)"
    and b: "b \<in> set (qhead q)" "deref h b = Inr j" "j_core j = c" "t_started j \<noteq> - 1"
  shows "inv_except h q (cs[nat c := Some b]) (- 1)"
  unfolding inv_except_def
proof (intro conjI allI impI)
  show "queue_ok h q" using inv by (simp add: inv_except_def)
next
  fix i assume i: "i < length (cs[nat c := Some b])"
  show "slot_ok h q (cs[nat c := Some b]) i"
  proof (cases "i = nat c")
    case True
    with c b i show ?thesis by (auto simp: slot_ok_def)
  next
    case False
    with c have "int i \<noteq> c" by auto
    with inv i have "slot_ok h q cs i" by (simp add: inv_except_def)
    with False show ?thesis by (simp add: slot_ok_def)
  qed
qed

text \<open>Core \<open>c\<close> is emptied.\<close>

lemma inv_except_clear:
  assumes inv: "inv_except h q cs c"
  shows "inv_except h q (cs[nat c := None]) (- 1)"
  unfolding inv_except_def
proof (intro conjI allI impI)
  show "queue_ok h q" using inv by (simp add: inv_except_def)
next
  fix i assume i: "i < length (cs[nat c := None])"
  show "slot_ok h q (cs[nat c := None]) i"
  proof (cases "i = nat c")
    case True
    with i show ?thesis by (auto simp: slot_ok_def)
  next
    case False
    show ?thesis
    proof (cases "int i = c")
      case True with False show ?thesis by simp
    next
      case ne: False
      with inv i have "slot_ok h q cs i" by (simp add: inv_except_def)
      with False show ?thesis by (simp add: slot_ok_def)
    qed
  qed
qed

text \<open>A live job with a new number is inserted in the queue.\<close>

lemma inv_except_insert:
  assumes inv: "inv_except h q cs c" and split: "qhead q = ys @ zs"
    and live: "deref h a = Inr j" and new: "a \<notin> set (qhead q)"
    and fresh: "\<forall>b\<in>set (qhead q). \<forall>jb. deref h b = Inr jb \<longrightarrow> job_id jb \<noteq> job_id j"
  shows "inv_except h (q\<lparr>qhead := ys @ a # zs, qsize := qsize q + 1\<rparr>) cs c"
proof -
  let ?q = "q\<lparr>qhead := ys @ a # zs, qsize := qsize q + 1\<rparr>"
  from inv have qo: "queue_ok h q" by (simp add: inv_except_def)
  have set: "set (qhead ?q) = insert a (set (qhead q))" using split by auto
  have "queue_ok h ?q"
    unfolding queue_ok_def
  proof (intro conjI ballI allI impI)
    show "qinv ?q" using qo split by (simp add: queue_ok_def qinv_def)
    show "distinct (qhead ?q)" using qo split new by (auto simp: queue_ok_def)
  next
    fix b assume "b \<in> set (qhead ?q)"
    with set live qo show "\<exists>j. deref h b = Inr j" by (auto simp: queue_ok_def)
  next
    fix b b' ja jb
    assume bb: "b \<in> set (qhead ?q)" "b' \<in> set (qhead ?q)"
      and dd: "deref h b = Inr ja" "deref h b' = Inr jb" "job_id ja = job_id jb"
    from bb set have cases: "b = a \<or> b \<in> set (qhead q)" "b' = a \<or> b' \<in> set (qhead q)" by auto
    have no: "x \<in> set (qhead q) \<Longrightarrow> deref h x = Inr jx \<Longrightarrow> job_id jx \<noteq> job_id j" for x jx
      using fresh by blast
    show "b = b'"
    proof (cases "b = a")
      case True
      with dd live have ja: "ja = j" by simp
      show ?thesis
      proof (cases "b' = a")
        case True with \<open>b = a\<close> show ?thesis by simp
      next
        case False
        with cases have "b' \<in> set (qhead q)" by simp
        from no[OF this dd(2)] ja dd(3) show ?thesis by simp
      qed
    next
      case False
      with cases have bq: "b \<in> set (qhead q)" by simp
      show ?thesis
      proof (cases "b' = a")
        case True
        with dd live have "jb = j" by simp
        with no[OF bq dd(1)] dd(3) show ?thesis by simp
      next
        case False
        with cases have "b' \<in> set (qhead q)" by simp
        with bq qo dd show ?thesis unfolding queue_ok_def by blast
      qed
    qed
  qed
  moreover have "slot_ok h ?q cs i" if "i < length cs" "int i \<noteq> c" for i
  proof -
    from inv that have "slot_ok h q cs i" by (simp add: inv_except_def)
    then show ?thesis unfolding slot_ok_def using set by auto
  qed
  ultimately show ?thesis by (simp add: inv_except_def)
qed

text \<open>The job at index \<open>k\<close> of the queue, which is on no core but possibly \<open>c\<close>, leaves the
  queue.\<close>

lemma set_removed:
  "distinct xs \<Longrightarrow> k < length xs \<Longrightarrow> set (take k xs @ drop (Suc k) xs) = set xs - {xs ! k}"
proof -
  assume d: "distinct xs" and k: "k < length xs"
  then have xs: "xs = take k xs @ xs ! k # drop (Suc k) xs" by (simp add: id_take_nth_drop)
  with d have "distinct (take k xs @ xs ! k # drop (Suc k) xs)" by simp
  then have "xs ! k \<notin> set (take k xs)" "xs ! k \<notin> set (drop (Suc k) xs)" by auto
  moreover have "set xs = set (take k xs) \<union> {xs ! k} \<union> set (drop (Suc k) xs)"
    by (subst xs) auto
  ultimately show ?thesis by auto
qed

lemma distinct_removed:
  assumes "distinct xs"
  shows "distinct (take k xs @ drop (Suc k) xs)"
proof -
  from assms have "distinct (take k xs @ drop k xs)" by simp
  then have 1: "distinct (take k xs)" and 2: "distinct (drop k xs)"
    and 3: "set (take k xs) \<inter> set (drop k xs) = {}"
    by (simp_all only: distinct_append)
  have "set (drop (Suc k) xs) \<subseteq> set (drop k xs)"
    by (rule set_drop_subset_set_drop) simp
  with 3 have "set (take k xs) \<inter> set (drop (Suc k) xs) = {}" by blast
  moreover from assms have "distinct (drop (Suc k) xs)" by simp
  ultimately show ?thesis using 1 by simp
qed

lemma inv_except_remove:
  assumes inv: "inv_except h q cs c" and k: "k < length (qhead q)"
    and off: "\<forall>i<length cs. int i \<noteq> c \<longrightarrow> cs ! i \<noteq> Some (qhead q ! k)"
  shows "inv_except h (removed q k) cs c \<and> qhead q ! k \<notin> set (qhead (removed q k))"
proof -
  from inv have qo: "queue_ok h q" by (simp add: inv_except_def)
  then have dist: "distinct (qhead q)" by (simp add: queue_ok_def)
  have set: "set (qhead (removed q k)) = set (qhead q) - {qhead q ! k}"
    using set_removed[OF dist k] by (simp add: removed_def)
  have "queue_ok h (removed q k)"
    unfolding queue_ok_def
  proof (intro conjI ballI allI impI)
    show "qinv (removed q k)" using qo k by (simp add: queue_ok_def qinv_removed)
    have "qhead (removed q k) = take k (qhead q) @ drop (Suc k) (qhead q)" by (simp add: removed_def)
    with distinct_removed[OF dist, of k] show "distinct (qhead (removed q k))" by (simp only:)
  next
    fix b assume "b \<in> set (qhead (removed q k))"
    with set qo show "\<exists>j. deref h b = Inr j" by (auto simp: queue_ok_def)
  next
    fix b b' ja jb
    assume "b \<in> set (qhead (removed q k))" "b' \<in> set (qhead (removed q k))"
      "deref h b = Inr ja" "deref h b' = Inr jb" "job_id ja = job_id jb"
    with set qo show "b = b'" unfolding queue_ok_def by (metis DiffD1)
  qed
  moreover have "slot_ok h (removed q k) cs i" if "i < length cs" "int i \<noteq> c" for i
  proof -
    from inv that have "slot_ok h q cs i" by (simp add: inv_except_def)
    moreover from off that have "cs ! i \<noteq> Some (qhead q ! k)" by simp
    ultimately show ?thesis unfolding slot_ok_def using set by auto
  qed
  ultimately show ?thesis using set by (simp add: inv_except_def)
qed

text \<open>A job that is neither queued nor on a core but possibly \<open>c\<close> is freed.\<close>

lemma inv_except_free:
  assumes inv: "inv_except h q cs c" and out: "a \<notin> set (qhead q)"
  shows "inv_except (h[a := None]) q cs c"
proof -
  have d: "b \<in> set (qhead q) \<Longrightarrow> deref (h[a := None]) b = deref h b" for b
    using out by (auto simp: deref_free)
  from inv have qo: "queue_ok h q" by (simp add: inv_except_def)
  have "queue_ok (h[a := None]) q"
    using qo unfolding queue_ok_def by (simp add: d)
  moreover have "slot_ok (h[a := None]) q cs i" if "i < length cs" "int i \<noteq> c" for i
  proof -
    from inv that have "slot_ok h q cs i" by (simp add: inv_except_def)
    then show ?thesis unfolding slot_ok_def by (auto simp: d)
  qed
  ultimately show ?thesis by (simp add: inv_except_def)
qed

text \<open>A new block is allocated.\<close>

lemma inv_except_alloc: "inv_except h q cs c \<Longrightarrow> inv_except (h @ [x]) q cs c"
proof -
  assume inv: "inv_except h q cs c"
  have d: "deref h b = Inr j \<Longrightarrow> deref (h @ [x]) b = Inr j" for b j
    by (auto simp: deref_Inr nth_append)
  have d': "b \<in> set (qhead q) \<Longrightarrow> deref (h @ [x]) b = deref h b" for b
    using inv d unfolding inv_except_def queue_ok_def by metis
  from inv have qo: "queue_ok h q" by (simp add: inv_except_def)
  have "queue_ok (h @ [x]) q"
    using qo unfolding queue_ok_def by (simp add: d')
  moreover have "slot_ok (h @ [x]) q cs i" if "i < length cs" "int i \<noteq> c" for i
  proof -
    from inv that have "slot_ok h q cs i" by (simp add: inv_except_def)
    then show ?thesis unfolding slot_ok_def by (auto simp: d')
  qed
  ultimately show ?thesis by (simp add: inv_except_def)
qed

section \<open>The events keep the invariant\<close>

lemma queue_ok_bound: "queue_ok h q \<Longrightarrow> a \<in> set (qhead q) \<Longrightarrow> a < length h"
  by (auto simp: queue_ok_def deref_Inr)

lemma inv_slot_queued:
  "inv_except h q cs c \<Longrightarrow> i < length cs \<Longrightarrow> int i \<noteq> c \<Longrightarrow> cs ! i = Some a \<Longrightarrow> a \<in> set (qhead q)"
  by (auto simp: inv_except_def slot_ok_def)

lemma new_job_inv:
  assumes inv: "sched_inv s" and tm: "time \<noteq> - 1"
    and fresh: "\<forall>a\<in>set (qhead (jobs s)). \<forall>j. deref (heap s) a = Inr j \<longrightarrow> job_id j \<noteq> n"
    and res: "scheduler_new_job blk n time rt prio s = Inr (r, s')"
  shows "sched_inv s'"
proof -
  let ?job = "length (heap s)"
  let ?nb = "new_block blk n time rt prio"
  let ?q = "jobs s" and ?cs = "c_job s"
  let ?s1 = "s\<lparr>heap := heap s @ [Some ?nb], c_time := time, n_jobs := n_jobs s + 1\<rparr>"
  from scheduler_new_job_cases[OF res] obtain s2 j where
    inc: "increment_timestep ?s1 = Inr s2" and j: "deref (heap s2) ?job = Inr j" and
    cases: "(r = free_core (c_job s2) 0 \<and> r < n_cores s2 \<and>
      enqueue (s2\<lparr>heap := (heap s2)[?job := Some (start_now (c_time s2) r j)],
                  c_job := (c_job s2)[nat r := Some ?job]\<rparr>) ?job = Inr s')
     \<or> (\<not> free_core (c_job s2) 0 < n_cores s2 \<and> choose_victim s2 j = Inr r \<and> r \<noteq> - 1 \<and>
         (\<exists>va v. core_slot (c_job s2) r = Inr (Some va) \<and>
            deref ((heap s2)[?job := Some (start_now (c_time s2) r j)]) va = Inr v \<and>
            enqueue (s2\<lparr>heap := (heap s2)[?job := Some (start_now (c_time s2) r j),
                                         va := Some (evict (c_time s2) v)],
                        c_job := (c_job s2)[nat r := Some ?job]\<rparr>) ?job = Inr s'))
     \<or> (\<not> free_core (c_job s2) 0 < n_cores s2 \<and> choose_victim s2 j = Inr (- 1) \<and> r = - 1 \<and>
         enqueue s2 ?job = Inr s')"
    by blast
  from increment_timestep_shape[OF inc] obtain h2 where
    s2: "s2 = ?s1\<lparr>heap := h2\<rparr>" and tk: "heap_ticked (heap s @ [Some ?nb]) h2" by auto
  from j s2 have j2: "deref h2 ?job = Inr j" by simp
  have "deref (heap s @ [Some ?nb]) ?job = Inr ?nb" by (simp add: deref_Inr)
  from heap_ticked_deref[OF tk this] j2 have "ticked ?nb j" by auto
  then have idj: "job_id j = n" by (simp add: ticked_def new_block_def)
  from inv have inv0: "inv_except (heap s) ?q ?cs (- 1)" by (simp add: sched_inv_def)
  then have qo0: "queue_ok (heap s) ?q" by (rule inv_exceptD_queue)
  have qi: "qinv ?q" using qo0 by (simp add: queue_ok_def)
  \<comment> \<open>the new block is neither queued nor on a core\<close>
  have notq: "?job \<notin> set (qhead ?q)" using queue_ok_bound[OF qo0] by blast
  have offcore: "\<forall>i<length ?cs. ?cs ! i \<noteq> Some ?job"
  proof (intro allI impI notI)
    fix i assume "i < length ?cs" "?cs ! i = Some ?job"
    from inv_slot_queued[OF inv0 this(1) _ this(2)] notq show False by simp
  qed
  \<comment> \<open>the invariant after the allocation and the clock advance\<close>
  have inv2: "inv_except h2 ?q ?cs (- 1)"
    using inv_except_ticked[OF inv_except_alloc[OF inv0] tk] .
  \<comment> \<open>no queued job has the new number\<close>
  have fresh2: "\<forall>b\<in>set (qhead ?q). \<forall>jb. deref h2 b = Inr jb \<longrightarrow> job_id jb \<noteq> n"
  proof (intro ballI allI impI)
    fix b jb assume b: "b \<in> set (qhead ?q)" and d: "deref h2 b = Inr jb"
    from heap_ticked_deref_rev[OF tk d] obtain jb0 where
      jb0: "deref (heap s @ [Some ?nb]) b = Inr jb0" "ticked jb0 jb" by blast
    from queue_ok_bound[OF qo0 b] jb0(1) have "deref (heap s) b = Inr jb0"
      by (simp add: deref_Inr nth_append)
    with fresh b have "job_id jb0 \<noteq> n" by blast
    with jb0(2) show "job_id jb \<noteq> n" by (simp add: ticked_def)
  qed
  \<comment> \<open>the new block rewritten for core \<open>c\<close>\<close>
  have upd: "inv_except (h2[?job := Some (start_now time c j)]) ?q ?cs (- 1)" for c
    by (rule inv_except_update[OF inv2 j2]) (simp_all add: start_now_def offcore)
  have dj: "deref (h2[?job := Some x]) ?job = Inr x" for x
    using j2 by (simp add: deref_update deref_Inr)
  have dother: "b \<in> set (qhead ?q) \<Longrightarrow> deref (h2[?job := Some x]) b = deref h2 b" for b x
    using notq by (auto simp: deref_update)
  from cases show ?thesis
  proof (elim disjE conjE exE)
    \<comment> \<open>an idle core\<close>
    assume r: "r = free_core (c_job s2) 0" "r < n_cores s2"
      and e: "enqueue (s2\<lparr>heap := (heap s2)[?job := Some (start_now (c_time s2) r j)],
                  c_job := (c_job s2)[nat r := Some ?job]\<rparr>) ?job = Inr s'"
    let ?h3 = "h2[?job := Some (start_now time r j)]"
    from r s2 free_core_ge[of 0 ?cs] have r0: "0 \<le> r" "r < int (length ?cs)"
      by (simp_all add: n_cores_def)
    from enqueue_shape[OF e] qi s2 obtain ys zs where
      yz: "qhead ?q = ys @ zs" and
      s': "s' = s2\<lparr>heap := ?h3, c_job := ?cs[nat r := Some ?job],
                  jobs := ?q\<lparr>qhead := ys @ ?job # zs, qsize := qsize ?q + 1\<rparr>\<rparr>"
      by auto
    let ?q' = "?q\<lparr>qhead := ys @ ?job # zs, qsize := qsize ?q + 1\<rparr>"
    have "inv_except ?h3 ?q' ?cs (- 1)"
      by (rule inv_except_insert[OF upd yz dj notq]) (simp add: dother fresh2 start_now_def idj)
    then have "inv_except ?h3 ?q' ?cs r" by (rule inv_except_weaken)
    from inv_except_install[OF this r0, of ?job "start_now time r j"] tm
    have "inv_except ?h3 ?q' (?cs[nat r := Some ?job]) (- 1)"
      by (simp add: dj start_now_def)
    with s' s2 show ?thesis by (simp add: sched_inv_def)
  next
    \<comment> \<open>a preemption\<close>
    fix va v
    assume slot: "core_slot (c_job s2) r = Inr (Some va)"
      and v: "deref ((heap s2)[?job := Some (start_now (c_time s2) r j)]) va = Inr v"
      and e: "enqueue (s2\<lparr>heap := (heap s2)[?job := Some (start_now (c_time s2) r j),
                                         va := Some (evict (c_time s2) v)],
                        c_job := (c_job s2)[nat r := Some ?job]\<rparr>) ?job = Inr s'"
    let ?h3 = "h2[?job := Some (start_now time r j)]"
    let ?h4 = "?h3[va := Some (evict time v)]"
    from slot s2 have r0: "0 \<le> r" "r < int (length ?cs)" and cva: "?cs ! nat r = Some va"
      by (auto simp: core_slot_def split: if_splits)
    from inv_slot_queued[OF inv0 _ _ cva] r0 have vaq: "va \<in> set (qhead ?q)" by simp
    with notq have vane: "va \<noteq> ?job" by auto
    from v s2 have v3: "deref ?h3 va = Inr v" by simp
    have off: "\<forall>i<length ?cs. int i \<noteq> r \<longrightarrow> ?cs ! i \<noteq> Some va"
    proof (intro allI impI)
      fix i assume i: "i < length ?cs" "int i \<noteq> r"
      from inv0 i r0 have "slot_ok (heap s) ?q ?cs i" "slot_ok (heap s) ?q ?cs (nat r)"
        by (simp_all add: inv_except_def)
      from slot_ok_distinct[OF this _ cva] i r0 show "?cs ! i \<noteq> Some va" by auto
    qed
    have inv4: "inv_except ?h4 ?q ?cs r"
      by (rule inv_except_update[OF inv_except_weaken[OF upd] v3 _ off]) (simp add: evict_def Let_def)
    from enqueue_shape[OF e] qi s2 obtain ys zs where
      yz: "qhead ?q = ys @ zs" and
      s': "s' = s2\<lparr>heap := ?h4, c_job := ?cs[nat r := Some ?job],
                  jobs := ?q\<lparr>qhead := ys @ ?job # zs, qsize := qsize ?q + 1\<rparr>\<rparr>"
      by auto
    let ?q' = "?q\<lparr>qhead := ys @ ?job # zs, qsize := qsize ?q + 1\<rparr>"
    from v3 have valt: "va < length ?h3" by (simp add: deref_Inr)
    have dj4: "deref ?h4 ?job = Inr (start_now time r j)"
      using vane dj[of "start_now time r j"] by (simp add: deref_update)
    have fresh4: "\<forall>b\<in>set (qhead ?q). \<forall>jb. deref ?h4 b = Inr jb \<longrightarrow> job_id jb \<noteq> job_id (start_now time r j)"
    proof (intro ballI allI impI)
      fix b jb assume b: "b \<in> set (qhead ?q)" and d: "deref ?h4 b = Inr jb"
      show "job_id jb \<noteq> job_id (start_now time r j)"
      proof (cases "b = va")
        case True
        with d valt have "jb = evict time v" by (simp add: deref_update)
        moreover from v3 vaq have "deref h2 va = Inr v" by (simp add: dother)
        with fresh2 vaq have "job_id v \<noteq> n" by blast
        ultimately show ?thesis by (simp add: evict_def Let_def start_now_def idj)
      next
        case False
        with d have "deref ?h3 b = Inr jb" by (simp add: deref_update)
        with b have "deref h2 b = Inr jb" by (simp only: dother)
        with fresh2 b show ?thesis by (simp add: start_now_def idj)
      qed
    qed
    have "inv_except ?h4 ?q' ?cs r"
      by (rule inv_except_insert[OF inv4 yz dj4 notq fresh4])
    from inv_except_install[OF this r0, of ?job "start_now time r j"] tm dj4
    have "inv_except ?h4 ?q' (?cs[nat r := Some ?job]) (- 1)"
      by (simp add: start_now_def)
    with s' s2 show ?thesis by (simp add: sched_inv_def)
  next
    \<comment> \<open>the job waits\<close>
    assume e: "enqueue s2 ?job = Inr s'"
    from enqueue_shape[OF e] qi s2 obtain ys zs where
      yz: "qhead ?q = ys @ zs" and
      s': "s' = s2\<lparr>jobs := ?q\<lparr>qhead := ys @ ?job # zs, qsize := qsize ?q + 1\<rparr>\<rparr>"
      by auto
    have "inv_except h2 (?q\<lparr>qhead := ys @ ?job # zs, qsize := qsize ?q + 1\<rparr>) ?cs (- 1)"
      by (rule inv_except_insert[OF inv2 yz j2 notq]) (simp add: fresh2 idj)
    with s' s2 show ?thesis by (simp add: sched_inv_def)
  qed
qed

text \<open>A freed core is given to a queued job that has no core.\<close>

lemma dispatch_inv:
  assumes inv: "inv_except h q cs c" and c: "0 \<le> c" "c < int (length cs)"
    and b: "b \<in> set (qhead q)" "deref h b = Inr nj" "j_core nj = - 1" and now: "now \<noteq> - 1"
  shows "inv_except (h[b := Some (dispatch now c nj)]) q (cs[nat c := Some b]) (- 1)"
proof -
  have off: "\<forall>i<length cs. int i \<noteq> c \<longrightarrow> cs ! i \<noteq> Some b"
  proof (intro allI impI notI)
    fix i assume i: "i < length cs" "int i \<noteq> c" "cs ! i = Some b"
    with inv have "slot_ok h q cs i" by (simp add: inv_except_def)
    with i(3) b(2,3) show False by (auto simp: slot_ok_def)
  qed
  have "inv_except (h[b := Some (dispatch now c nj)]) q cs c"
    by (rule inv_except_update[OF inv b(2) _ off]) (simp add: dispatch_def)
  moreover from b(2) have "deref (h[b := Some (dispatch now c nj)]) b = Inr (dispatch now c nj)"
    by (simp add: deref_update deref_Inr)
  moreover have "j_core (dispatch now c nj) = c" "t_started (dispatch now c nj) \<noteq> - 1"
    using now by (simp_all add: dispatch_def)
  ultimately show ?thesis using c b(1) by (intro inv_except_install) auto
qed

text \<open>The job on core \<open>c\<close>, at index \<open>k\<close> of the queue, is removed and freed.\<close>

lemma slots_off:
  assumes inv: "inv_except h q cs (- 1)" and c: "0 \<le> c" "c < int (length cs)"
    and a: "cs ! nat c = Some a"
  shows "\<forall>i<length cs. int i \<noteq> c \<longrightarrow> cs ! i \<noteq> Some a"
proof (intro allI impI)
  fix i assume i: "i < length cs" "int i \<noteq> c"
  from inv i c have "slot_ok h q cs i" "slot_ok h q cs (nat c)"
    by (simp_all add: inv_except_def)
  from slot_ok_distinct[OF this _ a] i c show "cs ! i \<noteq> Some a" by auto
qed

lemma finish_inv:
  assumes inv: "inv_except h q cs (- 1)" and c: "0 \<le> c" "c < int (length cs)"
    and k: "k < length (qhead q)" and a: "cs ! nat c = Some (qhead q ! k)"
  shows "inv_except (h[qhead q ! k := None]) (removed q k) (cs[nat c := None]) (- 1)"
proof -
  from inv_except_remove[OF inv_except_weaken[OF inv] k slots_off[OF inv c a]]
  have "inv_except h (removed q k) cs c" "qhead q ! k \<notin> set (qhead (removed q k))" by simp_all
  from inv_except_clear[OF inv_except_free[OF this]] show ?thesis .
qed

text \<open>The queued job with the number of a queued job \<open>a\<close> is \<open>a\<close>.\<close>

lemma same_number_same_job:
  assumes "queue_ok h q" "a \<in> set (qhead q)" "k < length (qhead q)"
    "deref h a = Inr ja" "deref h (qhead q ! k) = Inr jk" "job_id jk = job_id ja"
  shows "qhead q ! k = a"
proof -
  from assms(3) have "qhead q ! k \<in> set (qhead q)" by simp
  with assms show ?thesis unfolding queue_ok_def by blast
qed

lemma core_job_Inr:
  "core_job h cs c = Inr j \<longleftrightarrow> 0 \<le> c \<and> c < int (length cs) \<and> (\<exists>a. cs ! nat c = Some a \<and> deref h a = Inr j)"
  by (auto simp: core_job_def core_slot_def deref_ptr_def split: option.splits)

lemma job_finished_inv:
  assumes inv: "sched_inv s" and tm: "time \<noteq> - 1"
    and on: "core_job (heap s) (c_job s) core_id = Inr jc" "job_id jc = n"
    and res: "scheduler_job_finished core_id n time s = Inr (r, s')"
  shows "sched_inv s'"
proof -
  let ?q = "jobs s" and ?cs = "c_job s"
  from scheduler_job_finished_cases[OF res] obtain s1 a0 q j0 where
    inc: "increment_timestep (s\<lparr>c_time := time\<rparr>) = Inr s1" and
    fs: "finished_search (heap s1) (jobs s1) n 0 None = Inr (Some (Some a0), q)" and
    j0: "deref (heap s1) a0 = Inr j0" and
    rest: "let s2 = (add_stats time j0 s1)\<lparr>jobs := q, heap := (heap s1)[a0 := None],
                                     c_job := (c_job s1)[nat core_id := None]\<rparr>
     in (r = - 1 \<and> s' = s2) \<or>
        (\<exists>i b nj. next_search (heap s2) q 0 None = Inr (i, Some b) \<and> i < priqueue_size q \<and>
           deref (heap s2) b = Inr nj \<and> r = job_id nj \<and>
           s' = s2\<lparr>heap := (heap s2)[b := Some (dispatch (c_time s2) core_id nj)],
                   c_job := (c_job s2)[nat core_id := Some b]\<rparr>)"
    by blast
  from increment_timestep_shape[OF inc] obtain h1 where
    s1: "s1 = s\<lparr>c_time := time, heap := h1\<rparr>" and tk: "heap_ticked (heap s) h1" by auto
  from inv have inv0: "inv_except (heap s) ?q ?cs (- 1)" by (simp add: sched_inv_def)
  from inv_except_ticked[OF inv0 tk] have inv1: "inv_except h1 ?q ?cs (- 1)" .
  then have qo1: "queue_ok h1 ?q" by (rule inv_exceptD_queue)
  then have qi: "qinv ?q" by (simp add: queue_ok_def)
  \<comment> \<open>the job on the core\<close>
  from on(1) obtain ac where c: "0 \<le> core_id" "core_id < int (length ?cs)"
    and ac: "?cs ! nat core_id = Some ac" "deref (heap s) ac = Inr jc"
    by (auto simp: core_job_Inr)
  from heap_ticked_deref[OF tk ac(2)] on(2) obtain jc' where
    jc': "deref h1 ac = Inr jc'" "job_id jc' = n" by (auto simp: ticked_def)
  from inv_slot_queued[OF inv0 _ _ ac(1)] c have acq: "ac \<in> set (qhead ?q)" by simp
  then obtain ka where ka: "ka < length (qhead ?q)" "qhead ?q ! ka = ac"
    by (auto simp: in_set_conv_nth)
  \<comment> \<open>it is the job the search finds\<close>
  from finished_search_shape[OF fs] qi s1 ka jc'
  obtain k jk where k: "k < length (qhead ?q)" "deref h1 (qhead ?q ! k) = Inr jk" "job_id jk = n"
    "a0 = qhead ?q ! k" "q = removed ?q k"
    by fastforce
  from same_number_same_job[OF qo1 acq k(1) jc'(1) k(2)] k(3) jc'(2) have eq: "qhead ?q ! k = ac" by simp
  let ?h2 = "h1[a0 := None]" and ?cs2 = "?cs[nat core_id := None]"
  from finish_inv[OF inv1 c k(1)] ac(1) eq k(4,5)
  have inv2: "inv_except ?h2 q ?cs2 (- 1)" by simp
  let ?s2 = "(add_stats time j0 s1)\<lparr>jobs := q, heap := (heap s1)[a0 := None],
                                     c_job := (c_job s1)[nat core_id := None]\<rparr>"
  have f2: "heap ?s2 = ?h2" "c_job ?s2 = ?cs2" "jobs ?s2 = q" "c_time ?s2 = time"
    using s1 by (simp_all add: add_stats_def)
  from rest have "s' = ?s2 \<or>
        (\<exists>i b nj. next_search (heap ?s2) q 0 None = Inr (i, Some b) \<and> i < priqueue_size q \<and>
           deref (heap ?s2) b = Inr nj \<and>
           s' = ?s2\<lparr>heap := (heap ?s2)[b := Some (dispatch (c_time ?s2) core_id nj)],
                   c_job := (c_job ?s2)[nat core_id := Some b]\<rparr>)"
    unfolding Let_def by blast
  then show ?thesis
  proof (elim disjE exE conjE)
    assume "s' = ?s2"
    with inv2 f2 show ?thesis by (simp add: sched_inv_def)
  next
    fix i b nj
    assume ns: "next_search (heap ?s2) q 0 None = Inr (i, Some b)" and i: "i < priqueue_size q"
      and nj: "deref (heap ?s2) b = Inr nj"
      and s': "s' = ?s2\<lparr>heap := (heap ?s2)[b := Some (dispatch (c_time ?s2) core_id nj)],
                   c_job := (c_job ?s2)[nat core_id := Some b]\<rparr>"
    from inv2 have qq: "qinv q" by (simp add: inv_except_def queue_ok_def)
    from next_search_shape[OF ns qq] i nj
    have b: "b = qhead q ! nat i" "0 \<le> i" "j_core nj = - 1" by auto
    with i qq have bq: "b \<in> set (qhead q)" by (simp add: priqueue_size_def qinv_def)
    from c have c2: "0 \<le> core_id" "core_id < int (length ?cs2)" by simp_all
    from nj f2 have nj2: "deref ?h2 b = Inr nj" by simp
    from dispatch_inv[OF inv_except_weaken[OF inv2] c2 bq nj2 b(3) tm]
    have "inv_except (?h2[b := Some (dispatch time core_id nj)]) q (?cs2[nat core_id := Some b]) (- 1)" .
    with s' f2 show ?thesis by (simp add: sched_inv_def)
  qed
qed

lemma quantum_next_inv:
  assumes nxt: "quantum_next s2 core_id 0 = Inr (r, s')"
    and inv: "inv_except (heap s2) (jobs s2) (c_job s2) core_id"
    and full: "(\<exists>b\<in>set (qhead (jobs s2)). \<exists>j. deref (heap s2) b = Inr j \<and> j_core j = - 1)
                 \<or> inv_except (heap s2) (jobs s2) (c_job s2) (- 1)"
    and tm: "c_time s2 \<noteq> - 1"
  shows "sched_inv s'"
proof -
  from inv have qi: "qinv (jobs s2)" by (simp add: inv_except_def queue_ok_def)
  from quantum_next_shape[OF nxt qi] have
    "(s' = s2 \<and> (\<forall>m. m < length (qhead (jobs s2)) \<longrightarrow>
              (\<exists>j. deref (heap s2) (qhead (jobs s2) ! m) = Inr j \<and> j_core j \<noteq> - 1)))
       \<or> (\<exists>b nj. b \<in> set (qhead (jobs s2)) \<and> deref (heap s2) b = Inr nj \<and> j_core nj = - 1 \<and>
             0 \<le> core_id \<and> core_id < int (length (c_job s2)) \<and>
             s' = s2\<lparr>heap := (heap s2)[b := Some (dispatch (c_time s2) core_id nj)],
                    c_job := (c_job s2)[nat core_id := Some b]\<rparr>)"
    by auto
  then show ?thesis
  proof (elim disjE exE conjE)
    assume s': "s' = s2"
      and all: "\<forall>m. m < length (qhead (jobs s2)) \<longrightarrow>
              (\<exists>j. deref (heap s2) (qhead (jobs s2) ! m) = Inr j \<and> j_core j \<noteq> - 1)"
    have "\<not> (\<exists>b\<in>set (qhead (jobs s2)). \<exists>j. deref (heap s2) b = Inr j \<and> j_core j = - 1)"
    proof
      assume "\<exists>b\<in>set (qhead (jobs s2)). \<exists>j. deref (heap s2) b = Inr j \<and> j_core j = - 1"
      then obtain m j where "m < length (qhead (jobs s2))"
        "deref (heap s2) (qhead (jobs s2) ! m) = Inr j" "j_core j = - 1"
        by (auto simp: in_set_conv_nth)
      with all show False by fastforce
    qed
    with full s' show ?thesis by (simp add: sched_inv_def)
  next
    fix b nj
    assume b: "b \<in> set (qhead (jobs s2))" "deref (heap s2) b = Inr nj" "j_core nj = - 1"
      and c: "0 \<le> core_id" "core_id < int (length (c_job s2))"
      and s': "s' = s2\<lparr>heap := (heap s2)[b := Some (dispatch (c_time s2) core_id nj)],
                    c_job := (c_job s2)[nat core_id := Some b]\<rparr>"
    from dispatch_inv[OF inv c b tm] s' show ?thesis by (simp add: sched_inv_def)
  qed
qed

text \<open>After the first loop of \<^verbatim>\<open>scheduler_quantum_expired\<close> the invariant holds but
  possibly for the slot of the core, and then a queued job has no core.\<close>

lemma active_search_inv:
  assumes inv1: "inv_except (heap s1) (jobs s1) (c_job s1) (- 1)"
    and act: "active_search s1 core_id (priqueue_size (jobs s1)) 0 = Inr s2"
  shows "inv_except (heap s2) (jobs s2) (c_job s2) core_id \<and>
      ((\<exists>b\<in>set (qhead (jobs s2)). \<exists>j. deref (heap s2) b = Inr j \<and> j_core j = - 1)
        \<or> inv_except (heap s2) (jobs s2) (c_job s2) (- 1)) \<and>
      c_time s2 = c_time s1 \<and> length (c_job s2) = length (c_job s1)"
proof -
  let ?q = "jobs s1" and ?cs = "c_job s1" and ?h1 = "heap s1" and ?time = "c_time s1"
  from inv1 have qo1: "queue_ok ?h1 ?q" by (rule inv_exceptD_queue)
  then have q1: "qinv ?q" by (simp add: queue_ok_def)
  from active_search_shape[OF act q1] have
    "s2 = s1 \<or> (\<exists>k j cj. k < length (qhead ?q) \<and> deref ?h1 (qhead ?q ! k) = Inr j \<and>
           core_job ?h1 ?cs core_id = Inr cj \<and> job_id j = job_id cj \<and>
           quantum_found s1 core_id (int k) = Inr s2)"
    by (auto simp: priqueue_size_def)
  then show ?thesis
  proof (elim disjE exE conjE)
    assume "s2 = s1"
    with inv1 show ?thesis by (simp add: inv_except_weaken)
  next
    fix k j cj
    assume k: "k < length (qhead ?q)" and j: "deref ?h1 (qhead ?q ! k) = Inr j"
      and cj: "core_job ?h1 ?cs core_id = Inr cj" and same: "job_id j = job_id cj"
      and qf: "quantum_found s1 core_id (int k) = Inr s2"
    from cj obtain ac where c: "0 \<le> core_id" "core_id < int (length ?cs)"
      and ac: "?cs ! nat core_id = Some ac" "deref ?h1 ac = Inr cj"
      by (auto simp: core_job_Inr)
    from inv_slot_queued[OF inv1 _ _ ac(1)] c have acq: "ac \<in> set (qhead ?q)" by simp
    from same_number_same_job[OF qo1 acq k ac(2) j same] have eq: "qhead ?q ! k = ac" .
    with j ac(2) have jcj: "j = cj" by simp
    from quantum_found_shape[OF qf q1 k] eq jcj ac(2) have
      br: "if t_remaining cj \<noteq> 0
          then enqueue (s1\<lparr>jobs := removed ?q k,
                          heap := ?h1[ac := Some (cj\<lparr>j_core := - 1, t_updated := ?time\<rparr>)]\<rparr>) ac = Inr s2
          else s2 = (add_stats ?time cj s1)
                      \<lparr>jobs := removed ?q k, heap := ?h1[ac := None],
                       c_job := ?cs[nat core_id := None]\<rparr>"
      by (auto split: if_splits)
    show ?thesis
    proof (cases "t_remaining cj \<noteq> 0")
      case False
      with br have s2: "s2 = (add_stats ?time cj s1)
                      \<lparr>jobs := removed ?q k, heap := ?h1[ac := None],
                       c_job := ?cs[nat core_id := None]\<rparr>" by simp
      from finish_inv[OF inv1 c k] ac(1) eq
      have "inv_except (?h1[ac := None]) (removed ?q k) (?cs[nat core_id := None]) (- 1)" by simp
      with s2 show ?thesis by (simp add: add_stats_def inv_except_weaken)
    next
      case True
      let ?h = "?h1[ac := Some (cj\<lparr>j_core := - 1, t_updated := ?time\<rparr>)]"
      let ?t = "s1\<lparr>jobs := removed ?q k, heap := ?h\<rparr>"
      from True br have e: "enqueue ?t ac = Inr s2" by simp
      from inv_except_remove[OF inv_except_weaken[OF inv1] k] slots_off[OF inv1 c ac(1)] eq
      have rm: "inv_except ?h1 (removed ?q k) ?cs core_id" and out: "ac \<notin> set (qhead (removed ?q k))"
        by simp_all
      have up: "inv_except ?h (removed ?q k) ?cs core_id"
        by (rule inv_except_update[OF rm ac(2) _ slots_off[OF inv1 c ac(1)]]) simp
      from rm have "qinv (jobs ?t)" by (simp add: inv_except_def queue_ok_def)
      from enqueue_shape[OF e this] obtain ys zs where
        yz: "qhead (removed ?q k) = ys @ zs" and
        s2: "s2 = ?t\<lparr>jobs := (removed ?q k)\<lparr>qhead := ys @ ac # zs, qsize := qsize (removed ?q k) + 1\<rparr>\<rparr>"
        by auto
      have dac: "deref ?h ac = Inr (cj\<lparr>j_core := - 1, t_updated := ?time\<rparr>)"
        using ac(2) by (simp add: deref_update deref_Inr)
      have set: "set (qhead (removed ?q k)) = set (qhead ?q) - {ac}"
        using set_removed[of "qhead ?q" k] qo1 k eq by (simp add: removed_def queue_ok_def)
      have fresh: "\<forall>b\<in>set (qhead (removed ?q k)). \<forall>jb. deref ?h b = Inr jb \<longrightarrow>
                     job_id jb \<noteq> job_id (cj\<lparr>j_core := - 1, t_updated := ?time\<rparr>)"
      proof (intro ballI allI impI)
        fix b jb assume b: "b \<in> set (qhead (removed ?q k))" and d: "deref ?h b = Inr jb"
        from b set have bq: "b \<in> set (qhead ?q)" "b \<noteq> ac" by auto
        with d have "deref ?h1 b = Inr jb" by (simp add: deref_update)
        with qo1 bq acq ac(2) have "job_id jb \<noteq> job_id cj" unfolding queue_ok_def by blast
        then show "job_id jb \<noteq> job_id (cj\<lparr>j_core := - 1, t_updated := ?time\<rparr>)" by simp
      qed
      from inv_except_insert[OF up yz dac out fresh]
      have "inv_except ?h ((removed ?q k)\<lparr>qhead := ys @ ac # zs, qsize := qsize (removed ?q k) + 1\<rparr>) ?cs core_id" .
      moreover have "\<exists>b\<in>set (ys @ ac # zs). \<exists>j. deref ?h b = Inr j \<and> j_core j = - 1"
        using dac by (intro bexI[of _ ac]) auto
      ultimately show ?thesis using s2 by simp
    qed
  qed
qed

lemma quantum_expired_inv:
  assumes inv: "sched_inv s" and tm: "time \<noteq> - 1"
    and res: "scheduler_quantum_expired core_id time s = Inr (r, s')"
  shows "sched_inv s'"
proof -
  from scheduler_quantum_expired_cases[OF res] obtain s1 s2 where
    inc: "increment_timestep (s\<lparr>c_time := time\<rparr>) = Inr s1" and
    act: "active_search s1 core_id (priqueue_size (jobs s1)) 0 = Inr s2" and
    nxt: "quantum_next s2 core_id 0 = Inr (r, s')"
    by blast
  from increment_timestep_shape[OF inc] obtain h1 where
    s1: "s1 = s\<lparr>c_time := time, heap := h1\<rparr>" and tk: "heap_ticked (heap s) h1" by auto
  from inv have "inv_except (heap s) (jobs s) (c_job s) (- 1)" by (simp add: sched_inv_def)
  from inv_except_ticked[OF this tk] s1 have "inv_except (heap s1) (jobs s1) (c_job s1) (- 1)"
    by simp
  from active_search_inv[OF this act] s1 tm
  have "inv_except (heap s2) (jobs s2) (c_job s2) core_id"
    "(\<exists>b\<in>set (qhead (jobs s2)). \<exists>j. deref (heap s2) b = Inr j \<and> j_core j = - 1)
        \<or> inv_except (heap s2) (jobs s2) (c_job s2) (- 1)"
    "c_time s2 \<noteq> - 1"
    by simp_all
  from quantum_next_inv[OF nxt this] show ?thesis .
qed

lemma start_up_inv: "sched_inv (scheduler_start_up cores scheme)"
  by (simp add: sched_inv_def inv_except_def queue_ok_def slot_ok_def scheduler_start_up_def
      priqueue_init_def qinv_def)

lemma step_inv:
  assumes "sched_inv s" "call_ok e s" "step e s = Inr (r, s')"
  shows "sched_inv s'"
proof (cases e)
  case (New_job blk n time rt prio)
  with assms show ?thesis by (auto simp: call_ok_def intro: new_job_inv)
next
  case (Job_finished core_id n time)
  with assms show ?thesis by (auto simp: call_ok_def intro: job_finished_inv)
next
  case (Quantum_expired core_id time)
  with assms show ?thesis by (auto simp: call_ok_def intro: quantum_expired_inv)
qed

lemma run_inv: "sched_inv s0 \<Longrightarrow> run_ok evs s0 \<Longrightarrow> run evs s0 = Inr s \<Longrightarrow> sched_inv s"
proof (induction evs arbitrary: s0)
  case Nil
  then show ?case by simp
next
  case (Cons e es)
  from Cons.prems(2) obtain r s1 where st: "step e s0 = Inr (r, s1)" and ok: "call_ok e s0" "run_ok es s1"
    by (auto split: sum.splits)
  from Cons.prems(3) st have "run es s1 = Inr s" by simp
  from Cons.IH[OF step_inv[OF Cons.prems(1) ok(1) st] ok(2) this] show ?case .
qed

lemma inv_cores_consistent: "sched_inv s \<Longrightarrow> cores_consistent s"
  by (auto simp: sched_inv_def inv_except_def slot_ok_def cores_consistent_def)

lemma cores_consistent_unassigned: "cores_consistent s \<Longrightarrow> unassigned_off_core s"
  unfolding cores_consistent_def unassigned_off_core_def
  by (fastforce simp: in_set_conv_nth)

text \<open>
  C10, as the code has it. Start from \<^verbatim>\<open>scheduler_start_up\<close> and make any sequence of
  event calls in which no call carries the time -1, every new job has a number that no
  queued job has, every \<^verbatim>\<open>scheduler_job_finished\<close> names the job that is on the core it
  names, and no call runs into undefined behaviour. Then, after the last call, every
  non-empty core slot \<open>i\<close> holds a live job whose \<^verbatim>\<open>j_core\<close> is \<open>i\<close> and whose start
  time is set; no queued job with \<^verbatim>\<open>j_core = -1\<close> is in a core slot; and for every job
  on a core the clock advance of the next event, at whatever time, takes the branch that
  reduces the remaining time.
\<close>

theorem consistency_between_calls:
  assumes "run_ok evs (scheduler_start_up cores scheme)"
    and "run evs (scheduler_start_up cores scheme) = Inr s"
  shows "cores_consistent s \<and> unassigned_off_core s \<and>
         (\<forall>i<length (c_job s). \<forall>a j. c_job s ! i = Some a \<longrightarrow> deref (heap s) a = Inr j \<longrightarrow>
            (\<forall>now. advance_job now j =
                     j\<lparr>t_remaining := t_remaining j - (now - t_updated j), t_updated := now\<rparr>))"
proof -
  from run_inv[OF start_up_inv assms] have "sched_inv s" .
  then have cc: "cores_consistent s" by (rule inv_cores_consistent)
  then have "unassigned_off_core s" by (rule cores_consistent_unassigned)
  moreover have "\<forall>i<length (c_job s). \<forall>a j. c_job s ! i = Some a \<longrightarrow> deref (heap s) a = Inr j \<longrightarrow>
            (\<forall>now. advance_job now j =
                     j\<lparr>t_remaining := t_remaining j - (now - t_updated j), t_updated := now\<rparr>)"
    using cc unfolding cores_consistent_def advance_job_def by fastforce
  ultimately show ?thesis using cc by blast
qed

theorem consistency_between_calls_witness:
  "run_ok [New_job blk0 1 0 5 0, New_job blk0 2 1 3 0, Job_finished 0 1 5] (scheduler_start_up 1 FCFS) \<and>
   (case run [New_job blk0 1 0 5 0, New_job blk0 2 1 3 0, Job_finished 0 1 5]
          (scheduler_start_up 1 FCFS) of
      Inl e \<Rightarrow> False
    | Inr s \<Rightarrow> c_job s = [Some 1] \<and> cores_consistent s \<and> unassigned_off_core s \<and>
        map_option j_core (heap s ! 1) = Some 0)"
proof -
  let ?evs = "[New_job blk0 1 0 5 0, New_job blk0 2 1 3 0, Job_finished 0 1 5]"
  have ok: "run_ok ?evs (scheduler_start_up 1 FCFS)"
    by (simp add: call_ok_def blk0_def sched_defs priqueue_defs Let_def eval_nat_numeral)
  obtain s where r: "run ?evs (scheduler_start_up 1 FCFS) = Inr s"
    by (simp add: sched_defs priqueue_defs Let_def eval_nat_numeral)
  then have c: "c_job s = [Some 1]"
    by (auto simp add: sched_defs priqueue_defs Let_def eval_nat_numeral)
  from consistency_between_calls[OF ok r] have cc: "cores_consistent s" "unassigned_off_core s"
    by simp_all
  from cc(1) c have "map_option j_core (heap s ! 1) = Some 0"
    by (auto simp: cores_consistent_def deref_Inr)
  with ok r c cc show ?thesis by simp
qed

text \<open>
  C10 as stated holds between any two calls. A job that arrives at time -1 on an idle core
  is on the core with its start time equal to the sentinel, and the next clock advance
  takes the never-started branch for it. A \<^verbatim>\<open>scheduler_job_finished(0, 2, 3)\<close> made while
  job 2 runs on core 1 frees job 2 and clears core 0, so that core 1 holds a freed block
  and job 1 records a core that is empty.
\<close>

theorem consistency_needs_contract:
  "(case run [New_job blk0 1 (- 1) 5 0] (scheduler_start_up 1 FCFS) of
      Inl e \<Rightarrow> False
    | Inr s \<Rightarrow>
        c_job s = [Some 0] \<and> map_option t_started (heap s ! 0) = Some (- 1) \<and>
        \<not> cores_consistent s \<and>
        map_option (advance_job 0) (heap s ! 0) = map_option (\<lambda>j. j\<lparr>t_started := - 1\<rparr>) (heap s ! 0)) \<and>
   (case run [New_job blk0 1 0 5 0, New_job blk0 2 1 3 0, Job_finished 0 2 3]
          (scheduler_start_up 2 FCFS) of
      Inl e \<Rightarrow> False
    | Inr s \<Rightarrow>
        c_job s = [None, Some 1] \<and> heap s ! 1 = None \<and> map_option j_core (heap s ! 0) = Some 0 \<and>
        \<not> cores_consistent s)"
proof -
  obtain s where r: "run [New_job blk0 1 (- 1) 5 0] (scheduler_start_up 1 FCFS) = Inr s"
    by (simp add: sched_defs priqueue_defs Let_def eval_nat_numeral)
  then have 1: "c_job s = [Some 0]" "map_option t_started (heap s ! 0) = Some (- 1)"
    "map_option (advance_job 0) (heap s ! 0) = map_option (\<lambda>j. j\<lparr>t_started := - 1\<rparr>) (heap s ! 0)"
    "length (heap s) = 1"
    by (auto simp add: blk0_def sched_defs priqueue_defs Let_def eval_nat_numeral)
  have 2: "\<not> cores_consistent s"
  proof
    assume "cores_consistent s"
    with 1 obtain j where "deref (heap s) 0 = Inr j" "t_started j \<noteq> - 1"
      by (auto simp: cores_consistent_def)
    with 1(2) show False by (simp add: deref_Inr)
  qed
  obtain s' where r': "run [New_job blk0 1 0 5 0, New_job blk0 2 1 3 0, Job_finished 0 2 3]
          (scheduler_start_up 2 FCFS) = Inr s'"
    by (simp add: sched_defs priqueue_defs Let_def eval_nat_numeral)
  then have 3: "c_job s' = [None, Some 1]" "heap s' ! 1 = None" "map_option j_core (heap s' ! 0) = Some 0"
    by (auto simp add: blk0_def sched_defs priqueue_defs Let_def eval_nat_numeral)
  have 4: "\<not> cores_consistent s'"
  proof
    assume "cores_consistent s'"
    with 3(1) have "\<exists>j. deref (heap s') 1 = Inr j"
      unfolding cores_consistent_def by (auto dest!: spec[of _ 1])
    with 3(2) show False by (simp add: deref_Inr)
  qed
  from r 1 2 r' 3 4 show ?thesis by simp
qed

section \<open>Calls within the contract are defined\<close>

lemma advance_cores_defined:
  "\<forall>a. Some a \<in> set cs \<longrightarrow> (\<exists>j. deref h a = Inr j) \<Longrightarrow> \<exists>h'. advance_cores now cs h = Inr h'"
proof (induction now cs h rule: advance_cores.induct)
  case (3 now a cs h)
  from "3.prems" obtain j where j: "deref h a = Inr j" by auto
  have "\<forall>b. Some b \<in> set cs \<longrightarrow> (\<exists>k. deref (h[a := Some (advance_job now j)]) b = Inr k)"
    using "3.prems" j by (auto simp: deref_update deref_Inr)
  from "3.IH"[OF j this] j show ?case by simp
qed simp_all

lemma comparer_defined:
  "deref h a = Inr ja \<Longrightarrow> deref h b = Inr jb \<Longrightarrow> \<exists>v. comparer scheme h (Some a) (Some b) = Inr v"
  by (cases scheme) (simp_all add: comparer_def deref_ptr_def)

lemma offer_loop_defined:
  "\<forall>e\<in>set rest. \<exists>v. cmp x e = Inr v \<Longrightarrow> \<exists>r. offer_loop cmp x n c rest i = Inr r"
proof (induction rest arbitrary: c i)
  case Nil
  then show ?case by simp
next
  case (Cons d rest)
  from Cons.prems obtain v where v: "cmp x d = Inr v" by auto
  from Cons.prems have "\<forall>e\<in>set rest. \<exists>v. cmp x e = Inr v" by simp
  from Cons.IH[OF this, of d "i + 1"] obtain r where "offer_loop cmp x n d rest (i + 1) = Inr r" by blast
  with v show ?case by (cases r) (auto split: prod.splits)
qed

lemma priqueue_offer_defined:
  assumes "\<forall>e\<in>set (qhead q). \<exists>v. cmp x e = Inr v"
  shows "\<exists>r. priqueue_offer cmp q (Some x) = Inr r"
proof (cases "qhead q")
  case Nil
  then show ?thesis by (simp add: priqueue_offer_def)
next
  case (Cons h rest)
  with assms obtain v where v: "cmp x h = Inr v" by auto
  from assms Cons have "\<forall>e\<in>set rest. \<exists>v. cmp x e = Inr v" by simp
  from offer_loop_defined[where cmp=cmp and x=x and rest=rest and n="priqueue_size q" and c=h and i=0, OF this] obtain r where
    "offer_loop cmp x (priqueue_size q) h rest 0 = Inr r" by blast
  with v Cons show ?thesis
    by (cases r) (auto simp: priqueue_offer_def split: prod.splits)
qed

lemma enqueue_defined:
  assumes "\<forall>b\<in>set (qhead (jobs s)). \<exists>j. deref (heap s) b = Inr j" "deref (heap s) a = Inr ja"
  shows "\<exists>s'. enqueue s a = Inr s'"
proof -
  have "\<forall>e\<in>set (qhead (jobs s)). \<exists>v. job_comp s a e = Inr v"
    using assms by (auto simp: job_comp_def intro: comparer_defined)
  from priqueue_offer_defined[where cmp="job_comp s" and x=a and q="jobs s", OF this] show ?thesis
    by (auto simp: enqueue_def)
qed

lemma psjf_scan_defined:
  "\<forall>c\<in>set cs. \<exists>j. deref_ptr h c = Inr j \<Longrightarrow>
     \<exists>r. psjf_scan h rmn cs i ctc cl = Inr r \<and> (r = ctc \<or> (i \<le> r \<and> r < i + int (length cs)))"
proof (induction cs arbitrary: i ctc cl)
  case Nil
  then show ?case by simp
next
  case (Cons c cs)
  from Cons.prems obtain cj where cj: "deref_ptr h c = Inr cj" by auto
  from Cons.prems have rest: "\<forall>c\<in>set cs. \<exists>j. deref_ptr h c = Inr j" by simp
  show ?case
  proof (cases "t_remaining cj > rmn \<and> t_remaining cj > cl")
    case True
    from Cons.IH[OF rest, of "i + 1" i "t_remaining cj"] cj True show ?thesis by auto
  next
    case False
    from Cons.IH[OF rest, of "i + 1" ctc cl] cj False show ?thesis by auto
  qed
qed

lemma ppri_scan_defined:
  assumes "\<forall>m<length cores. \<exists>j. deref_ptr h (cores ! m) = Inr j"
    and "cs = drop b cores" and "i = int b" and "b \<le> length cores"
    and "(ctc = - 1 \<and> cp = - 1) \<or> (0 \<le> ctc \<and> ctc < int (length cores))"
    and "- 1 \<le> prio"
  shows "\<exists>r. ppri_scan h cores prio cs i ctc cp = Inr r \<and> (r = - 1 \<or> (0 \<le> r \<and> r < int (length cores)))"
  using assms(2-)
proof (induction cs arbitrary: b i ctc cp)
  case Nil
  then show ?case by auto
next
  case (Cons c cs)
  from drop_eq_ConsD[OF Cons.prems(1)] have blt: "b < length cores" and c: "c = cores ! b"
    and cs: "cs = drop (Suc b) cores" by simp_all
  from assms(1) blt c obtain cj where cj: "deref_ptr h c = Inr cj" by auto
  have i1: "i + 1 = int (Suc b)" using Cons.prems(2) by simp
  have sb: "Suc b \<le> length cores" using blt by simp
  have ir: "0 \<le> i \<and> i < int (length cores)" using Cons.prems(2) blt by simp
  note IH = Cons.IH[OF cs i1 sb _ Cons.prems(5)]
  show ?case
  proof (cases "prio < priority cj")
    case False
    with IH[OF Cons.prems(4)] cj show ?thesis by simp
  next
    case cand: True
    show ?thesis
    proof (cases "cp < priority cj")
      case True
      from IH[of i "priority cj"] ir cj cand True show ?thesis by simp
    next
      case nb: False
      from cand Cons.prems(5) nb have "cp \<noteq> - 1" by linarith
      with Cons.prems(4) have ctc: "0 \<le> ctc" "ctc < int (length cores)" by auto
      with assms(1) obtain oj where oj: "core_job h cores ctc = Inr oj"
        by (metis core_job_nth nat_less_iff)
      show ?thesis
      proof (cases "priority cj = cp \<and> t_arrival oj < t_arrival cj")
        case True
        from IH[of i cp] ir cj cand nb oj True show ?thesis by simp
      next
        case False
        from IH[OF Cons.prems(4)] cj cand nb oj False show ?thesis by auto
      qed
    qed
  qed
qed

lemma finished_search_defined:
  assumes "qinv q" "\<forall>a\<in>set (qhead q). \<exists>j. deref h a = Inr j" "0 \<le> i"
  shows "\<exists>r. finished_search h q n i jf = Inr r"
  using assms
proof (induction h q n i jf rule: finished_search.induct)
  case (1 h q n i jf)
  show ?case
  proof (cases "i < priqueue_size q")
    case False
    then show ?thesis by (simp add: finished_search.simps)
  next
    case True
    with "1.prems" have sz: "i < qsize q" and lt: "nat i < length (qhead q)"
      by (auto simp: qinv_def priqueue_size_def)
    let ?a = "qhead q ! nat i"
    from "1.prems" sz have at: "priqueue_at q i = Inr (Some ?a)" by (simp add: priqueue_at_nth)
    from "1.prems"(2) lt obtain j where j: "deref h ?a = Inr j" by (metis nth_mem)
    then have dj: "deref_ptr h (Some ?a) = Inr j" by (simp add: deref_ptr_def)
    show ?thesis
    proof (cases "job_id j = n")
      case yes: True
      from "1.prems" sz have "priqueue_remove_at q i = Inr (Some ?a, removed q (nat i))"
        by (simp add: priqueue_remove_at_nth removed_def)
      with True at dj yes show ?thesis by (subst finished_search.simps) simp
    next
      case no: False
      from "1.prems" have "0 \<le> i + 1" by simp
      from "1.IH"[OF True at dj no "1.prems"(1,2) this] True at dj no show ?thesis
        by (subst finished_search.simps) simp
    qed
  qed
qed

lemma next_search_defined:
  assumes "qinv q" "\<forall>a\<in>set (qhead q). \<exists>j. deref h a = Inr j" "0 \<le> i"
  shows "\<exists>r. next_search h q i nj = Inr r"
  using assms
proof (induction h q i nj rule: next_search.induct)
  case (1 h q i nj)
  show ?case
  proof (cases "i < priqueue_size q")
    case False
    then show ?thesis by (simp add: next_search.simps)
  next
    case True
    with "1.prems" have sz: "i < qsize q" and lt: "nat i < length (qhead q)"
      by (auto simp: qinv_def priqueue_size_def)
    let ?a = "qhead q ! nat i"
    from "1.prems" sz have at: "priqueue_at q i = Inr (Some ?a)" by (simp add: priqueue_at_nth)
    from "1.prems"(2) lt obtain j where j: "deref h ?a = Inr j" by (metis nth_mem)
    show ?thesis
    proof (cases "j_core j = - 1")
      case yes: True
      with True at j show ?thesis by (subst next_search.simps) simp
    next
      case no: False
      from "1.prems" have "0 \<le> i + 1" by simp
      from "1.IH"(2)[OF True at refl j no "1.prems"(1,2) this] True at j no show ?thesis
        by (subst next_search.simps) simp
    qed
  qed
qed

lemma quantum_next_defined:
  assumes "qinv (jobs s)" "\<forall>a\<in>set (qhead (jobs s)). \<exists>j. deref (heap s) a = Inr j" "0 \<le> i"
    and "0 \<le> core_id" "core_id < int (length (c_job s))"
  shows "\<exists>r. quantum_next s core_id i = Inr r"
  using assms
proof (induction s core_id i rule: quantum_next.induct)
  case (1 s core_id i)
  show ?case
  proof (cases "i < priqueue_size (jobs s)")
    case False
    then show ?thesis by (simp add: quantum_next.simps)
  next
    case True
    with "1.prems" have sz: "i < qsize (jobs s)" and lt: "nat i < length (qhead (jobs s))"
      by (auto simp: qinv_def priqueue_size_def)
    let ?b = "qhead (jobs s) ! nat i"
    from "1.prems" sz have at: "priqueue_at (jobs s) i = Inr (Some ?b)" by (simp add: priqueue_at_nth)
    from "1.prems"(2) lt obtain nj where nj: "deref (heap s) ?b = Inr nj" by (metis nth_mem)
    show ?thesis
    proof (cases "j_core nj = - 1")
      case yes: True
      with True at nj "1.prems"(4,5) show ?thesis
        by (subst quantum_next.simps) (simp add: core_slot_def)
    next
      case no: False
      from "1.prems" have "0 \<le> i + 1" by simp
      from "1.IH"[OF True at refl nj no "1.prems"(1,2) this "1.prems"(4,5)] True at nj no show ?thesis
        by (subst quantum_next.simps) simp
    qed
  qed
qed

lemma quantum_found_defined:
  assumes qi: "qinv (jobs s)" and live: "\<forall>a\<in>set (qhead (jobs s)). \<exists>j. deref (heap s) a = Inr j"
    and k: "k < length (qhead (jobs s))"
    and c: "0 \<le> core_id" "core_id < int (length (c_job s))"
  shows "\<exists>s'. quantum_found s core_id (int k) = Inr s'"
proof -
  let ?a = "qhead (jobs s) ! k"
  from qi k have rm: "priqueue_remove_at (jobs s) (int k) = Inr (Some ?a, removed (jobs s) k)"
    by (simp add: priqueue_remove_at_nth removed_def qinv_def)
  from live k obtain aj where aj: "deref (heap s) ?a = Inr aj" by (metis nth_mem)
  show ?thesis
  proof (cases "t_remaining aj \<noteq> 0")
    case False
    with rm aj c show ?thesis by (simp add: quantum_found_def deref_ptr_def core_slot_def)
  next
    case True
    let ?t = "s\<lparr>jobs := removed (jobs s) k,
                 heap := (heap s)[?a := Some (aj\<lparr>j_core := - 1, t_updated := c_time s\<rparr>)]\<rparr>"
    have "set (qhead (removed (jobs s) k)) \<subseteq> set (qhead (jobs s))"
      by (auto simp: removed_def dest: in_set_takeD in_set_dropD)
    with live aj have "\<forall>b\<in>set (qhead (jobs ?t)). \<exists>j. deref (heap ?t) b = Inr j"
      by (auto simp: deref_update)
    moreover from aj have "deref (heap ?t) ?a = Inr (aj\<lparr>j_core := - 1, t_updated := c_time s\<rparr>)"
      by (simp add: deref_update deref_Inr)
    ultimately obtain s' where "enqueue ?t ?a = Inr s'" using enqueue_defined by blast
    with rm aj True show ?thesis by (simp add: quantum_found_def deref_ptr_def)
  qed
qed

lemma active_search_defined:
  assumes "qinv (jobs s)" "\<forall>a\<in>set (qhead (jobs s)). \<exists>j. deref (heap s) a = Inr j" "0 \<le> i"
    and "len = qsize (jobs s)"
    and "core_job (heap s) (c_job s) core_id = Inr cj"
  shows "\<exists>s'. active_search s core_id len i = Inr s'"
  using assms
proof (induction s core_id len i rule: active_search.induct)
  case (1 s core_id len i)
  show ?case
  proof (cases "i < len")
    case False
    then show ?thesis by (simp add: active_search.simps)
  next
    case True
    with "1.prems" have sz: "i < qsize (jobs s)" and lt: "nat i < length (qhead (jobs s))"
      by (auto simp: qinv_def)
    let ?a = "qhead (jobs s) ! nat i"
    from "1.prems" sz have at: "priqueue_at (jobs s) i = Inr (Some ?a)" by (simp add: priqueue_at_nth)
    from "1.prems"(2) lt obtain aj where aj: "deref (heap s) ?a = Inr aj" by (metis nth_mem)
    then have daj: "deref_ptr (heap s) (Some ?a) = Inr aj" by (simp add: deref_ptr_def)
    note cj = "1.prems"(5)
    show ?thesis
    proof (cases "job_id aj = job_id cj")
      case yes: True
      from cj have "0 \<le> core_id" "core_id < int (length (c_job s))" by (auto simp: core_job_Inr)
      from quantum_found_defined[OF "1.prems"(1,2) lt this] "1.prems"(3)
      obtain s' where "quantum_found s core_id i = Inr s'" by auto
      with True at daj cj yes show ?thesis by (subst active_search.simps) simp
    next
      case no: False
      from "1.prems" have "0 \<le> i + 1" by simp
      from "1.IH"[OF True at daj cj no "1.prems"(1,2) this "1.prems"(4,5)] True at daj cj no
      show ?thesis by (subst active_search.simps) simp
    qed
  qed
qed

lemma free_core_none_free:
  "\<not> free_core cs i < i + int (length cs) \<Longrightarrow> \<forall>c\<in>set cs. c \<noteq> None"
proof (induction cs i rule: free_core.induct)
  case (3 a cs i)
  then show ?case by auto
qed auto

lemma inv_live_queue: "inv_except h q cs c \<Longrightarrow> \<forall>a\<in>set (qhead q). \<exists>j. deref h a = Inr j"
  by (simp add: inv_except_def queue_ok_def)

lemma inv_live_cores: "inv_except h q cs (- 1) \<Longrightarrow> \<forall>a. Some a \<in> set cs \<longrightarrow> (\<exists>j. deref h a = Inr j)"
  by (fastforce simp: inv_except_def slot_ok_def in_set_conv_nth)

lemma increment_timestep_defined:
  assumes "inv_except (heap s) (jobs s) (c_job s) (- 1)"
  shows "\<exists>s'. increment_timestep s = Inr s'"
proof -
  from advance_cores_defined[OF inv_live_cores[OF assms], of "c_time s"]
  show ?thesis by (auto simp: increment_timestep_def)
qed

text \<open>\<^verbatim>\<open>scheduler_new_job\<close> is defined on every state that satisfies the invariant, provided
  that under PPRI the new priority number is at least -1.\<close>

lemma new_job_defined:
  assumes inv: "sched_inv s" and pr: "t_scheme s = PPRI \<longrightarrow> - 1 \<le> prio"
  shows "\<exists>r s'. scheduler_new_job blk n time rt prio s = Inr (r, s')"
proof -
  let ?job = "length (heap s)"
  let ?nb = "new_block blk n time rt prio"
  let ?q = "jobs s" and ?cs = "c_job s"
  let ?s1 = "s\<lparr>heap := heap s @ [Some ?nb], c_time := time, n_jobs := n_jobs s + 1\<rparr>"
  from inv have inv0: "inv_except (heap s) ?q ?cs (- 1)" by (simp add: sched_inv_def)
  from inv_except_alloc[OF inv0] have inv1: "inv_except (heap ?s1) (jobs ?s1) (c_job ?s1) (- 1)" by simp
  from increment_timestep_defined[OF inv1] obtain s2 where inc: "increment_timestep ?s1 = Inr s2" by blast
  from increment_timestep_shape[OF inc] obtain h2 where
    s2: "s2 = ?s1\<lparr>heap := h2\<rparr>" and tk: "heap_ticked (heap s @ [Some ?nb]) h2" by auto
  from inv_except_ticked[OF inv1] tk have inv2: "inv_except h2 ?q ?cs (- 1)" by simp
  have "deref (heap s @ [Some ?nb]) ?job = Inr ?nb" by (simp add: deref_Inr)
  from heap_ticked_deref[OF tk this] obtain j where j: "deref h2 ?job = Inr j" "ticked ?nb j" by blast
  then have pj: "priority j = prio" by (simp add: ticked_def new_block_def)
  have liveq: "\<forall>b\<in>set (qhead ?q). \<exists>k. deref h2 b = Inr k" using inv_live_queue[OF inv2] .
  have livec: "\<forall>a. Some a \<in> set ?cs \<longrightarrow> (\<exists>k. deref h2 a = Inr k)" using inv_live_cores[OF inv2] .
  \<comment> \<open>the queue insertion on a heap that differs from \<open>h2\<close> by rewritten blocks\<close>
  have enq: "\<exists>s'. enqueue (s2\<lparr>heap := h', c_job := cs'\<rparr>) ?job = Inr s'"
    if "\<forall>b. (\<exists>k. deref h2 b = Inr k) \<longrightarrow> (\<exists>k. deref h' b = Inr k)" for h' cs'
  proof -
    from that j(1) obtain k where k: "deref h' ?job = Inr k" by blast
    have "\<forall>b\<in>set (qhead (jobs (s2\<lparr>heap := h', c_job := cs'\<rparr>))).
            \<exists>k. deref (heap (s2\<lparr>heap := h', c_job := cs'\<rparr>)) b = Inr k"
      using that liveq s2 by simp
    moreover from k have "deref (heap (s2\<lparr>heap := h', c_job := cs'\<rparr>)) ?job = Inr k" by simp
    ultimately show ?thesis by (rule enqueue_defined)
  qed
  show ?thesis
  proof (cases "free_core (c_job s2) 0 < n_cores s2")
    case True
    let ?i = "free_core (c_job s2) 0"
    have "\<forall>b. (\<exists>k. deref h2 b = Inr k) \<longrightarrow> (\<exists>k. deref (h2[?job := Some (start_now time ?i j)]) b = Inr k)"
      by (auto simp: deref_update)
    from enq[OF this, of "(c_job s2)[nat ?i := Some ?job]"] obtain s' where
      "enqueue (s2\<lparr>heap := (heap s2)[?job := Some (start_now (c_time s2) ?i j)],
                  c_job := (c_job s2)[nat ?i := Some ?job]\<rparr>) ?job = Inr s'"
      using s2 by auto
    with inc j(1) s2 True show ?thesis
      by (simp add: scheduler_new_job_def Let_def)
  next
    case False
    with s2 have busy: "\<forall>c\<in>set ?cs. c \<noteq> None"
      using free_core_none_free[of ?cs 0] by (simp add: n_cores_def)
    have lived: "\<forall>c\<in>set ?cs. \<exists>k. deref_ptr h2 c = Inr k"
    proof
      fix c assume c: "c \<in> set ?cs"
      with busy obtain a where "c = Some a" by (cases c) auto
      with c livec show "\<exists>k. deref_ptr h2 c = Inr k" by (simp add: deref_ptr_def)
    qed
    have "\<exists>cv. choose_victim s2 j = Inr cv \<and> (cv = - 1 \<or> (0 \<le> cv \<and> cv < int (length ?cs)))"
    proof (cases "t_scheme s = PSJF")
      case True
      from psjf_scan_defined[OF lived, of "t_remaining j" 0 "- 1" "- 1"] True s2
      show ?thesis by (auto simp: choose_victim_def)
    next
      case np: False
      show ?thesis
      proof (cases "t_scheme s = PPRI")
        case True
        have "\<forall>m<length ?cs. \<exists>k. deref_ptr h2 (?cs ! m) = Inr k" using lived by simp
        from ppri_scan_defined[OF this, of ?cs 0 0 "- 1" "- 1" prio] True pr np s2 pj
        show ?thesis by (auto simp: choose_victim_def)
      next
        case False
        with np s2 show ?thesis by (simp add: choose_victim_def)
      qed
    qed
    then obtain cv where cv: "choose_victim s2 j = Inr cv" "cv = - 1 \<or> (0 \<le> cv \<and> cv < int (length ?cs))"
      by blast
    show ?thesis
    proof (cases "cv = - 1")
      case True
      have "\<forall>b. (\<exists>k. deref h2 b = Inr k) \<longrightarrow> (\<exists>k. deref h2 b = Inr k)" by simp
      from enq[OF this, of ?cs] s2 obtain s' where "enqueue s2 ?job = Inr s'" by auto
      with inc j(1) s2 False cv True show ?thesis
        by (simp add: scheduler_new_job_def Let_def)
    next
      case ne: False
      with cv have r: "0 \<le> cv" "cv < int (length ?cs)" by auto
      then have "?cs ! nat cv \<in> set ?cs" by simp
      with busy obtain va where va: "?cs ! nat cv = Some va" by (cases "?cs ! nat cv") auto
      with r have slot: "core_slot (c_job s2) cv = Inr (Some va)" using s2 by (simp add: core_slot_def)
      let ?h3 = "h2[?job := Some (start_now time cv j)]"
      from va r livec have "\<exists>k. deref h2 va = Inr k" by (metis nth_mem nat_less_iff)
      then have "\<exists>v. deref ?h3 va = Inr v" by (auto simp: deref_update)
      then obtain v where v: "deref ?h3 va = Inr v" by blast
      have "\<forall>b. (\<exists>k. deref h2 b = Inr k) \<longrightarrow> (\<exists>k. deref (?h3[va := Some (evict time v)]) b = Inr k)"
        by (auto simp: deref_update)
      from enq[OF this, of "(c_job s2)[nat cv := Some ?job]"] obtain s' where
        "enqueue (s2\<lparr>heap := (heap s2)[?job := Some (start_now (c_time s2) cv j), va := Some (evict (c_time s2) v)],
                  c_job := (c_job s2)[nat cv := Some ?job]\<rparr>) ?job = Inr s'"
        using s2 by auto
      with inc j(1) s2 False cv(1) ne slot v show ?thesis
        by (simp add: scheduler_new_job_def Let_def)
    qed
  qed
qed

text \<open>\<^verbatim>\<open>scheduler_job_finished\<close> is defined when it names the job on the core it names.\<close>

lemma job_finished_defined:
  assumes inv: "sched_inv s"
    and on: "core_job (heap s) (c_job s) core_id = Inr jc" "job_id jc = n"
  shows "\<exists>r s'. scheduler_job_finished core_id n time s = Inr (r, s')"
proof -
  let ?q = "jobs s" and ?cs = "c_job s"
  from inv have inv0: "inv_except (heap s) ?q ?cs (- 1)" by (simp add: sched_inv_def)
  then have "inv_except (heap (s\<lparr>c_time := time\<rparr>)) (jobs (s\<lparr>c_time := time\<rparr>)) (c_job (s\<lparr>c_time := time\<rparr>)) (- 1)"
    by simp
  from increment_timestep_defined[OF this] obtain s1 where
    inc: "increment_timestep (s\<lparr>c_time := time\<rparr>) = Inr s1" by blast
  from increment_timestep_shape[OF inc] obtain h1 where
    s1: "s1 = s\<lparr>c_time := time, heap := h1\<rparr>" and tk: "heap_ticked (heap s) h1" by auto
  from inv_except_ticked[OF inv0 tk] have inv1: "inv_except h1 ?q ?cs (- 1)" .
  then have qo1: "queue_ok h1 ?q" by (rule inv_exceptD_queue)
  then have qi: "qinv ?q" by (simp add: queue_ok_def)
  from on(1) obtain ac where c: "0 \<le> core_id" "core_id < int (length ?cs)"
    and ac: "?cs ! nat core_id = Some ac" "deref (heap s) ac = Inr jc"
    by (auto simp: core_job_Inr)
  from heap_ticked_deref[OF tk ac(2)] on(2) obtain jc' where
    jc': "deref h1 ac = Inr jc'" "job_id jc' = n" by (auto simp: ticked_def)
  from inv_slot_queued[OF inv0 _ _ ac(1)] c have acq: "ac \<in> set (qhead ?q)" by simp
  then obtain ka where ka: "ka < length (qhead ?q)" "qhead ?q ! ka = ac"
    by (auto simp: in_set_conv_nth)
  from finished_search_defined[OF qi inv_live_queue[OF inv1], of 0 n None]
  obtain jf q where fs: "finished_search h1 ?q n 0 None = Inr (jf, q)" by auto
  from finished_search_shape[OF fs qi] ka jc'
  obtain k jk where k: "k < length (qhead ?q)" "deref h1 (qhead ?q ! k) = Inr jk" "job_id jk = n"
    "jf = Some (Some (qhead ?q ! k))" "q = removed ?q k"
    by fastforce
  from same_number_same_job[OF qo1 acq k(1) jc'(1) k(2)] k(3) jc'(2) have eq: "qhead ?q ! k = ac" by simp
  with k(4) have jf: "jf = Some (Some ac)" by simp
  let ?h2 = "h1[ac := None]" and ?cs2 = "?cs[nat core_id := None]"
  from finish_inv[OF inv1 c k(1)] ac(1) eq k(5)
  have inv2: "inv_except ?h2 q ?cs2 (- 1)" by simp
  then have qq: "qinv q" by (simp add: inv_except_def queue_ok_def)
  from next_search_defined[OF qq inv_live_queue[OF inv2], of 0 None]
  obtain i nj where ns: "next_search ?h2 q 0 None = Inr (i, nj)" by auto
  have slot: "core_slot (c_job s1) core_id = Inr (Some ac)"
    using c ac(1) s1 by (simp add: core_slot_def)
  have fs1: "finished_search (heap s1) (jobs s1) n 0 None = Inr (Some (Some ac), q)"
    using fs jf s1 by simp
  have d1: "deref (heap s1) ac = Inr jc'" using jc'(1) s1 by simp
  have ns1: "next_search ((heap s1)[ac := None]) q 0 None = Inr (i, nj)" using ns s1 by simp
  show ?thesis
  proof (cases "priqueue_size q = 0 \<or> priqueue_size q \<le> i")
    case True
    then show ?thesis
      using inc fs1 d1 slot ns1
      by (auto simp: scheduler_job_finished_def Let_def add_stats_def)
  next
    case False
    show ?thesis
    proof (cases nj)
      case None
      with False show ?thesis
        using inc fs1 d1 slot ns1
        by (auto simp: scheduler_job_finished_def Let_def add_stats_def)
    next
      case (Some b)
      from next_search_shape[OF ns qq] False Some obtain j where "deref ?h2 b = Inr j" by auto
      then have "deref ((heap s1)[ac := None]) b = Inr j" using s1 by simp
      with False Some show ?thesis
        using inc fs1 d1 slot ns1
        by (auto simp: scheduler_job_finished_def Let_def add_stats_def)
    qed
  qed
qed

text \<open>\<^verbatim>\<open>scheduler_quantum_expired\<close> is defined when the core it names holds a job, and
  also when the queue is empty.\<close>

lemma quantum_expired_defined:
  assumes inv: "sched_inv s"
    and on: "(\<exists>jc. core_job (heap s) (c_job s) core_id = Inr jc) \<or> qhead (jobs s) = []"
  shows "\<exists>r s'. scheduler_quantum_expired core_id time s = Inr (r, s')"
proof -
  let ?q = "jobs s" and ?cs = "c_job s"
  from inv have inv0: "inv_except (heap s) ?q ?cs (- 1)" by (simp add: sched_inv_def)
  then have "inv_except (heap (s\<lparr>c_time := time\<rparr>)) (jobs (s\<lparr>c_time := time\<rparr>)) (c_job (s\<lparr>c_time := time\<rparr>)) (- 1)"
    by simp
  from increment_timestep_defined[OF this] obtain s1 where
    inc: "increment_timestep (s\<lparr>c_time := time\<rparr>) = Inr s1" by blast
  from increment_timestep_shape[OF inc] obtain h1 where
    s1: "s1 = s\<lparr>c_time := time, heap := h1\<rparr>" and tk: "heap_ticked (heap s) h1" by auto
  from inv_except_ticked[OF inv0 tk] s1 have inv1: "inv_except (heap s1) (jobs s1) (c_job s1) (- 1)"
    by simp
  then have qi: "qinv (jobs s1)" by (simp add: inv_except_def queue_ok_def)
  from on show ?thesis
  proof
    assume "qhead (jobs s) = []"
    with qi s1 have "priqueue_size (jobs s1) = 0" by (simp add: qinv_def priqueue_size_def)
    with inc show ?thesis
      by (simp add: scheduler_quantum_expired_def active_search.simps quantum_next.simps)
  next
    assume "\<exists>jc. core_job (heap s) (c_job s) core_id = Inr jc"
    then obtain jc ac where c: "0 \<le> core_id" "core_id < int (length ?cs)"
      and ac: "?cs ! nat core_id = Some ac" "deref (heap s) ac = Inr jc"
      by (auto simp: core_job_Inr)
    from heap_ticked_deref[OF tk ac(2)] obtain jc' where "deref h1 ac = Inr jc'" by blast
    with c ac(1) s1 have cj: "core_job (heap s1) (c_job s1) core_id = Inr jc'"
      by (simp add: core_job_Inr)
    from active_search_defined[OF qi inv_live_queue[OF inv1] _ _ cj, of 0 "priqueue_size (jobs s1)"]
    obtain s2 where act: "active_search s1 core_id (priqueue_size (jobs s1)) 0 = Inr s2"
      by (auto simp: priqueue_size_def)
    from active_search_inv[OF inv1 act] s1 c
    have inv2: "inv_except (heap s2) (jobs s2) (c_job s2) core_id" and c2: "core_id < int (length (c_job s2))"
      by simp_all
    from inv2 have "qinv (jobs s2)" by (simp add: inv_except_def queue_ok_def)
    from quantum_next_defined[OF this inv_live_queue[OF inv2] _ c(1) c2, of 0]
    obtain x where "quantum_next s2 core_id 0 = Inr x" by auto
    with inc act show ?thesis
      by (cases x) (simp add: scheduler_quantum_expired_def)
  qed
qed

text \<open>A call within the contract runs into no undefined behaviour: what the contract adds
  for this is that, under PPRI, priority numbers are at least -1, and that a quantum
  expires on a core that holds a job (or while nothing is queued).\<close>

theorem step_defined:
  assumes "sched_inv s" and "call_ok e s"
    and "case e of
           New_job blk n time rt prio \<Rightarrow> t_scheme s = PPRI \<longrightarrow> - 1 \<le> prio
         | Job_finished core_id n time \<Rightarrow> True
         | Quantum_expired core_id time \<Rightarrow>
             (\<exists>jc. core_job (heap s) (c_job s) core_id = Inr jc) \<or> qhead (jobs s) = []"
  shows "\<exists>r s'. step e s = Inr (r, s') \<and> sched_inv s'"
proof -
  have "\<exists>r s'. step e s = Inr (r, s')"
  proof (cases e)
    case (New_job blk n time rt prio)
    with assms new_job_defined[of s prio blk n time rt] show ?thesis by simp
  next
    case (Job_finished core_id n time)
    with assms job_finished_defined[of s core_id _ n time] show ?thesis
      by (auto simp: call_ok_def)
  next
    case (Quantum_expired core_id time)
    with assms quantum_expired_defined[of s core_id time] show ?thesis by simp
  qed
  with step_inv[OF assms(1,2)] show ?thesis by blast
qed

section \<open>The clock advance\<close>

lemma running_distinct:
  "\<forall>i k a. i < length cs \<and> k < length cs \<and> cs ! i = Some a \<and> cs ! k = Some a \<longrightarrow> i = k
     \<Longrightarrow> distinct (running cs)"
proof (induction cs rule: running.induct)
  case 1
  then show ?case by simp
next
  case (2 cs)
  have "distinct (running cs)"
  proof (rule 2(1), intro allI impI)
    fix i k b assume "i < length cs \<and> k < length cs \<and> cs ! i = Some b \<and> cs ! k = Some b"
    with 2(2)[rule_format, of "Suc i" "Suc k" b] show "i = k" by simp
  qed
  then show ?case by simp
next
  case (3 a cs)
  have "a \<notin> set (running cs)"
  proof
    assume "a \<in> set (running cs)"
    then have "Some a \<in> set cs" by (simp add: running_set)
    then obtain k where "k < length cs" "cs ! k = Some a" by (auto simp: in_set_conv_nth)
    with 3(2)[rule_format, of 0 "Suc k" a] show False by simp
  qed
  moreover have "distinct (running cs)"
  proof (rule 3(1), intro allI impI)
    fix i k b assume "i < length cs \<and> k < length cs \<and> cs ! i = Some b \<and> cs ! k = Some b"
    with 3(2)[rule_format, of "Suc i" "Suc k" b] show "i = k" by simp
  qed
  ultimately show ?case by simp
qed

lemma inv_running_distinct: "sched_inv s \<Longrightarrow> distinct (running (c_job s))"
proof (rule running_distinct, intro allI impI)
  fix i k a
  assume inv: "sched_inv s"
    and a: "i < length (c_job s) \<and> k < length (c_job s) \<and> c_job s ! i = Some a \<and> c_job s ! k = Some a"
  from inv a have "slot_ok (heap s) (jobs s) (c_job s) i" "slot_ok (heap s) (jobs s) (c_job s) k"
    by (simp_all add: sched_inv_def inv_except_def)
  from slot_ok_distinct[OF this] a show "i = k" by simp
qed

text \<open>
  C1, under the caller's contract. Start from \<^verbatim>\<open>scheduler_start_up\<close> and make any sequence
  of event calls in which no call carries the time -1, every new job has a number that no
  queued job has, every \<^verbatim>\<open>scheduler_job_finished\<close> names the job that is on the core it
  names, and no call runs into undefined behaviour; let \<open>s\<close> be the state after the last
  call. The next event stores its time in \<^verbatim>\<open>c_time\<close> and calls \<^verbatim>\<open>increment_timestep\<close>
  before it touches the cores or the queue (\<^verbatim>\<open>scheduler_new_job\<close> after it has allocated
  the block of the new job and counted it): in a state \<open>u\<close> with the cores of \<open>s\<close> and the
  blocks of \<open>s\<close>, followed by the new blocks \<open>extra\<close>. That call succeeds and changes
  exactly the blocks of the jobs on the cores. Every job on a core has its start time set;
  its remaining time is reduced by the current time minus its last update time, and its
  last update time becomes the current time.
\<close>

theorem increment_timestep_effect:
  assumes "run_ok evs (scheduler_start_up cores scheme)"
    and "run evs (scheduler_start_up cores scheme) = Inr s"
    and "c_job u = c_job s" and "heap u = heap s @ extra"
  shows "\<exists>h'. increment_timestep u = Inr (u\<lparr>heap := h'\<rparr>) \<and> length h' = length (heap u) \<and>
     (\<forall>i<length (c_job s). \<forall>a. c_job s ! i = Some a \<longrightarrow>
        (\<exists>j. deref (heap s) a = Inr j \<and> t_started j \<noteq> - 1 \<and>
           deref h' a =
             Inr (j\<lparr>t_remaining := t_remaining j - (c_time u - t_updated j),
                    t_updated := c_time u\<rparr>))) \<and>
     (\<forall>a. Some a \<notin> set (c_job s) \<longrightarrow> h' ! a = heap u ! a)"
proof -
  from run_inv[OF start_up_inv assms(1,2)] have inv: "sched_inv s" .
  then have cc: "cores_consistent s" by (rule inv_cores_consistent)
  from inv have d: "distinct (running (c_job s))" by (rule inv_running_distinct)
  from inv have live: "\<forall>a. Some a \<in> set (c_job s) \<longrightarrow> (\<exists>j. deref (heap s) a = Inr j)"
    unfolding sched_inv_def by (rule inv_live_cores)
  have keep: "\<And>a j. deref (heap s) a = Inr j \<Longrightarrow> deref (heap u) a = Inr j"
    by (simp add: deref_Inr assms(4) nth_append)
  from live keep have l: "\<forall>a\<in>set (running (c_job s)). \<exists>j. deref (heap u) a = Inr j"
    by (fastforce simp: running_set)
  from advance_cores_exact[OF d l, of "c_time u"] obtain h' where
    h': "advance_cores (c_time u) (c_job s) (heap u) = Inr h'" "length h' = length (heap u)"
      "\<forall>a. h' ! a = (if a \<in> set (running (c_job s))
                       then map_option (advance_job (c_time u)) (heap u ! a) else heap u ! a)"
    by blast
  have "\<forall>i<length (c_job s). \<forall>a. c_job s ! i = Some a \<longrightarrow>
        (\<exists>j. deref (heap s) a = Inr j \<and> t_started j \<noteq> - 1 \<and>
           deref h' a =
             Inr (j\<lparr>t_remaining := t_remaining j - (c_time u - t_updated j),
                    t_updated := c_time u\<rparr>))"
  proof (intro allI impI)
    fix i a assume i: "i < length (c_job s)" and a: "c_job s ! i = Some a"
    with cc obtain j where j: "deref (heap s) a = Inr j" "t_started j \<noteq> - 1"
      unfolding cores_consistent_def by blast
    from keep[OF j(1)] have ju: "deref (heap u) a = Inr j" .
    from i a have "Some a \<in> set (c_job s)" by (metis nth_mem)
    then have "a \<in> set (running (c_job s))" by (simp add: running_set)
    with h'(3) ju have "h' ! a = Some (advance_job (c_time u) j)" by (simp add: deref_Inr)
    with ju h'(2) have "deref h' a = Inr (advance_job (c_time u) j)" by (simp add: deref_Inr)
    with j show "\<exists>j. deref (heap s) a = Inr j \<and> t_started j \<noteq> - 1 \<and>
           deref h' a =
             Inr (j\<lparr>t_remaining := t_remaining j - (c_time u - t_updated j),
                    t_updated := c_time u\<rparr>)"
      by (auto simp: advance_job_def)
  qed
  moreover have "\<forall>a. Some a \<notin> set (c_job s) \<longrightarrow> h' ! a = heap u ! a"
    using h'(3) by (simp add: running_set)
  ultimately show ?thesis using h'(1,2) assms(3)
    by (intro exI[of _ h']) (simp add: increment_timestep_def)
qed

text \<open>
  Two cores, FCFS, jobs 1 and 2 arriving at times 0 and 1 with running times 5 and 3. Job 1
  is on core 0 with 4 left and job 2 on core 1 with 3 left, both last updated at time 1.
  The clock advance of an event at time 4 leaves them with 1 and 0, updated at time 4.
\<close>

theorem increment_timestep_effect_witness:
  "run_ok [New_job blk0 1 0 5 0, New_job blk0 2 1 3 0] (scheduler_start_up 2 FCFS) \<and>
   (case run [New_job blk0 1 0 5 0, New_job blk0 2 1 3 0] (scheduler_start_up 2 FCFS) of
      Inl e \<Rightarrow> False
    | Inr s \<Rightarrow>
        c_job s = [Some 0, Some 1] \<and>
        map_option t_remaining (heap s ! 0) = Some 4 \<and> map_option t_updated (heap s ! 0) = Some 1 \<and>
        map_option t_remaining (heap s ! 1) = Some 3 \<and> map_option t_updated (heap s ! 1) = Some 1 \<and>
        (case increment_timestep (s\<lparr>c_time := 4\<rparr>) of
           Inl e \<Rightarrow> False
         | Inr s' \<Rightarrow>
             map_option t_remaining (heap s' ! 0) = Some 1 \<and>
             map_option t_updated (heap s' ! 0) = Some 4 \<and>
             map_option t_remaining (heap s' ! 1) = Some 0 \<and>
             map_option t_updated (heap s' ! 1) = Some 4 \<and>
             map_option t_started (heap s' ! 0) = Some 0 \<and>
             map_option t_started (heap s' ! 1) = Some 1))"
proof -
  let ?evs = "[New_job blk0 1 0 5 0, New_job blk0 2 1 3 0]"
  have ok: "run_ok ?evs (scheduler_start_up 2 FCFS)"
    by (simp add: call_ok_def blk0_def sched_defs priqueue_defs Let_def eval_nat_numeral)
  obtain s where r: "run ?evs (scheduler_start_up 2 FCFS) = Inr s"
    by (simp add: sched_defs priqueue_defs Let_def eval_nat_numeral)
  then have c: "c_job s = [Some 0, Some 1]" "length (heap s) = 2"
    and j0: "map_option t_remaining (heap s ! 0) = Some 4" "map_option t_updated (heap s ! 0) = Some 1"
      "map_option t_started (heap s ! 0) = Some 0"
    and j1: "map_option t_remaining (heap s ! 1) = Some 3" "map_option t_updated (heap s ! 1) = Some 1"
      "map_option t_started (heap s ! 1) = Some 1"
    by (auto simp add: blk0_def sched_defs priqueue_defs Let_def eval_nat_numeral)
  have u: "c_job (s\<lparr>c_time := 4\<rparr>) = c_job s" "heap (s\<lparr>c_time := 4\<rparr>) = heap s @ []"
    by simp_all
  from increment_timestep_effect[OF ok r u] obtain h' where
    h': "increment_timestep (s\<lparr>c_time := 4\<rparr>) = Inr (s\<lparr>c_time := 4, heap := h'\<rparr>)"
    and e: "\<forall>i<length (c_job s). \<forall>a. c_job s ! i = Some a \<longrightarrow>
        (\<exists>j. deref (heap s) a = Inr j \<and> t_started j \<noteq> - 1 \<and>
           deref h' a =
             Inr (j\<lparr>t_remaining := t_remaining j - (4 - t_updated j), t_updated := 4\<rparr>))"
    by auto
  from e[rule_format, of 0 0] c obtain ja where
    ja: "deref (heap s) 0 = Inr ja"
      "deref h' 0 = Inr (ja\<lparr>t_remaining := t_remaining ja - (4 - t_updated ja), t_updated := 4\<rparr>)"
    by auto
  from e[rule_format, of 1 1] c obtain jb where
    jb: "deref (heap s) 1 = Inr jb"
      "deref h' 1 = Inr (jb\<lparr>t_remaining := t_remaining jb - (4 - t_updated jb), t_updated := 4\<rparr>)"
    by auto
  from ja j0 have a: "map_option t_remaining (h' ! 0) = Some 1" "map_option t_updated (h' ! 0) = Some 4"
    "map_option t_started (h' ! 0) = Some 0"
    by (auto simp: deref_Inr)
  from jb j1 have b: "map_option t_remaining (h' ! 1) = Some 0" "map_option t_updated (h' ! 1) = Some 4"
    "map_option t_started (h' ! 1) = Some 1"
    by (auto simp: deref_Inr)
  from ok r c j0 j1 h' a b show ?thesis by simp
qed

text \<open>
  C1 as stated has no condition on the calls. A job that arrives at time -1 on an idle
  core is on the core with start time -1, the value that stands for ``unset'', and with
  last update time -1. The clock advance of the next event, at time 0, finds the start
  time unset and the last update time different from the current time: the job is not
  marked started at time 0, and neither is its remaining time reduced or its last update
  time set.
\<close>

theorem arrival_at_unset_time_not_advanced:
  "(case scheduler_new_job blk0 1 (- 1) 5 0 (scheduler_start_up 1 FCFS) of
      Inl e \<Rightarrow> False
    | Inr (r1, s1) \<Rightarrow>
        r1 = 0 \<and> c_job s1 = [Some 0] \<and>
        map_option t_started (heap s1 ! 0) = Some (- 1) \<and>
        map_option t_updated (heap s1 ! 0) = Some (- 1) \<and>
        map_option t_remaining (heap s1 ! 0) = Some 5 \<and>
        (case increment_timestep (s1\<lparr>c_time := 0\<rparr>) of
           Inl e \<Rightarrow> False
         | Inr s2 \<Rightarrow>
             c_time s2 = 0 \<and>
             map_option t_started (heap s2 ! 0) = Some (- 1) \<and>
             map_option t_updated (heap s2 ! 0) = Some (- 1) \<and>
             map_option t_remaining (heap s2 ! 0) = Some 5) \<and>
        (case scheduler_new_job blk0 2 0 3 0 s1 of
           Inl e \<Rightarrow> False
         | Inr (r2, s2) \<Rightarrow>
             c_time s2 = 0 \<and>
             map_option t_started (heap s2 ! 0) = Some (- 1) \<and>
             map_option t_updated (heap s2 ! 0) = Some (- 1) \<and>
             map_option t_remaining (heap s2 ! 0) = Some 5))"
  by (simp add: blk0_def sched_defs priqueue_defs Let_def eval_nat_numeral)

section \<open>Queue size\<close>

lemma new_job_queue:
  assumes "scheduler_new_job blk n time rt prio s = Inr (r, s')" "qinv (jobs s)"
  shows "\<exists>ys zs. qhead (jobs s) = ys @ zs \<and>
           jobs s' = (jobs s)\<lparr>qhead := ys @ length (heap s) # zs, qsize := qsize (jobs s) + 1\<rparr>"
proof -
  let ?job = "length (heap s)"
  let ?s1 = "s\<lparr>heap := heap s @ [Some (new_block blk n time rt prio)], c_time := time, n_jobs := n_jobs s + 1\<rparr>"
  from scheduler_new_job_cases[OF assms(1)] obtain s2 j where
    inc: "increment_timestep ?s1 = Inr s2" and
    cases: "(\<exists>h cs. enqueue (s2\<lparr>heap := h, c_job := cs\<rparr>) ?job = Inr s') \<or> enqueue s2 ?job = Inr s'"
    by blast
  from increment_timestep_shape[OF inc] obtain h2 where
    s2: "s2 = ?s1\<lparr>heap := h2\<rparr>" by blast
  from cases show ?thesis
  proof (elim disjE exE)
    fix h cs
    assume e: "enqueue (s2\<lparr>heap := h, c_job := cs\<rparr>) ?job = Inr s'"
    from enqueue_shape[OF e] assms(2) s2 obtain ys zs where
      "qhead (jobs s) = ys @ zs"
      "s' = s2\<lparr>heap := h, c_job := cs,
               jobs := (jobs s)\<lparr>qhead := ys @ ?job # zs, qsize := qsize (jobs s) + 1\<rparr>\<rparr>"
      by auto
    then show ?thesis by auto
  next
    assume e: "enqueue s2 ?job = Inr s'"
    from enqueue_shape[OF e] assms(2) s2 obtain ys zs where
      "qhead (jobs s) = ys @ zs"
      "s' = s2\<lparr>jobs := (jobs s)\<lparr>qhead := ys @ ?job # zs, qsize := qsize (jobs s) + 1\<rparr>\<rparr>"
      by auto
    then show ?thesis by auto
  qed
qed

lemma job_finished_queue:
  assumes fin: "scheduler_job_finished core_id n time s = Inr (r, s')" and q: "qinv (jobs s)"
    and pres: "\<exists>a\<in>set (qhead (jobs s)). \<exists>j. deref (heap s) a = Inr j \<and> job_id j = n"
  shows "\<exists>k j. k < length (qhead (jobs s)) \<and> deref (heap s) (qhead (jobs s) ! k) = Inr j \<and>
           job_id j = n \<and>
           (\<forall>m<k. \<forall>jm. deref (heap s) (qhead (jobs s) ! m) = Inr jm \<longrightarrow> job_id jm \<noteq> n) \<and>
           jobs s' = removed (jobs s) k"
proof -
  from scheduler_job_finished_cases[OF fin] obtain s1 a q' j where
    inc: "increment_timestep (s\<lparr>c_time := time\<rparr>) = Inr s1" and
    fs: "finished_search (heap s1) (jobs s1) n 0 None = Inr (Some (Some a), q')" and
    rest: "let s2 = (add_stats time j s1)\<lparr>jobs := q', heap := (heap s1)[a := None],
                                     c_job := (c_job s1)[nat core_id := None]\<rparr>
     in (r = - 1 \<and> s' = s2) \<or>
        (\<exists>i b nj. next_search (heap s2) q' 0 None = Inr (i, Some b) \<and> i < priqueue_size q' \<and>
           deref (heap s2) b = Inr nj \<and> r = job_id nj \<and>
           s' = s2\<lparr>heap := (heap s2)[b := Some (dispatch (c_time s2) core_id nj)],
                   c_job := (c_job s2)[nat core_id := Some b]\<rparr>)"
    by blast
  from rest have js: "jobs s' = q'" unfolding Let_def by auto
  from increment_timestep_shape[OF inc] obtain h1 where
    s1: "s1 = s\<lparr>c_time := time, heap := h1\<rparr>" and tk: "heap_ticked (heap s) h1" by auto
  from s1 q have q1: "qinv (jobs s1)" "jobs s1 = jobs s" "heap s1 = h1" by simp_all
  have same: "\<And>b jb. deref (heap s) b = Inr jb \<Longrightarrow> \<exists>jb'. deref h1 b = Inr jb' \<and> job_id jb' = job_id jb"
    using heap_ticked_deref[OF tk] by (fastforce simp: ticked_def)
  have rev: "\<And>b jb'. deref h1 b = Inr jb' \<Longrightarrow> \<exists>jb. deref (heap s) b = Inr jb \<and> job_id jb = job_id jb'"
    using heap_ticked_deref_rev[OF tk] by (fastforce simp: ticked_def)
  from pres obtain m0 j0 where m0: "m0 < length (qhead (jobs s))"
    "deref (heap s) (qhead (jobs s) ! m0) = Inr j0" "job_id j0 = n"
    by (auto simp: in_set_conv_nth)
  from same[OF m0(2)] m0(3) obtain j0' where
    j0': "deref h1 (qhead (jobs s) ! m0) = Inr j0'" "job_id j0' = n" by auto
  from finished_search_shape[OF fs q1(1)] q1(2,3)
  have "(\<exists>k jk. k < length (qhead (jobs s)) \<and> deref h1 (qhead (jobs s) ! k) = Inr jk \<and> job_id jk = n \<and>
            (\<forall>m. m < k \<longrightarrow> (\<exists>jm. deref h1 (qhead (jobs s) ! m) = Inr jm \<and> job_id jm \<noteq> n)) \<and>
            q' = removed (jobs s) k)
       \<or> (\<forall>m. m < length (qhead (jobs s)) \<longrightarrow> (\<exists>jm. deref h1 (qhead (jobs s) ! m) = Inr jm \<and> job_id jm \<noteq> n))"
    by auto
  then obtain k jk where k: "k < length (qhead (jobs s))" "deref h1 (qhead (jobs s) ! k) = Inr jk"
    "job_id jk = n"
    "\<forall>m. m < k \<longrightarrow> (\<exists>jm. deref h1 (qhead (jobs s) ! m) = Inr jm \<and> job_id jm \<noteq> n)"
    "q' = removed (jobs s) k"
    using m0(1) j0' by fastforce
  from rev[OF k(2)] k(3) obtain j1 where j1: "deref (heap s) (qhead (jobs s) ! k) = Inr j1" "job_id j1 = n"
    by auto
  have "\<forall>m<k. \<forall>jm. deref (heap s) (qhead (jobs s) ! m) = Inr jm \<longrightarrow> job_id jm \<noteq> n"
  proof (intro allI impI)
    fix m jm assume m: "m < k" and d: "deref (heap s) (qhead (jobs s) ! m) = Inr jm"
    from same[OF d] obtain jm' where "deref h1 (qhead (jobs s) ! m) = Inr jm'" "job_id jm' = job_id jm"
      by auto
    with k(4) m show "job_id jm \<noteq> n" by auto
  qed
  with k(1,5) j1 js show ?thesis by blast
qed

text \<open>
  C9. On a queue whose size field counts its nodes, a call of \<^verbatim>\<open>scheduler_new_job\<close> links
  one node in, the one of the new job's block, and leaves the others in their order; the
  queue size is one larger afterwards. A call of \<^verbatim>\<open>scheduler_job_finished\<close> whose job number
  is the number of a queued job unlinks one node, that of a job with this number, and
  leaves the others in their order; the queue size is one smaller afterwards. In both
  cases the size field counts the nodes again, so the same holds for the next call. The
  calls return: \<^verbatim>\<open>scheduler_new_job\<close> on every state that satisfies the invariant (under
  PPRI for a priority number of at least -1), and \<^verbatim>\<open>scheduler_job_finished\<close> on every such
  state when it names the job on the core it names, which is then a queued job.
\<close>

theorem queue_size_changes:
  assumes "qinv (jobs s)"
  shows "(scheduler_new_job blk n time rt prio s = Inr (r, s') \<longrightarrow>
            qinv (jobs s') \<and> priqueue_size (jobs s') = priqueue_size (jobs s) + 1 \<and>
            length (qhead (jobs s')) = length (qhead (jobs s)) + 1 \<and>
            (\<exists>ys zs. qhead (jobs s) = ys @ zs \<and> qhead (jobs s') = ys @ length (heap s) # zs)) \<and>
         (scheduler_job_finished core_id m time' s = Inr (r', s'') \<longrightarrow>
            (\<exists>a\<in>set (qhead (jobs s)). \<exists>j. deref (heap s) a = Inr j \<and> job_id j = m) \<longrightarrow>
            qinv (jobs s'') \<and> priqueue_size (jobs s'') = priqueue_size (jobs s) - 1 \<and>
            length (qhead (jobs s'')) + 1 = length (qhead (jobs s)) \<and>
            (\<exists>k<length (qhead (jobs s)).
               (\<exists>j. deref (heap s) (qhead (jobs s) ! k) = Inr j \<and> job_id j = m) \<and>
               qhead (jobs s'') = take k (qhead (jobs s)) @ drop (Suc k) (qhead (jobs s)))) \<and>
         (sched_inv s \<and> (t_scheme s = PPRI \<longrightarrow> - 1 \<le> prio) \<longrightarrow>
            (\<exists>r s'. scheduler_new_job blk n time rt prio s = Inr (r, s'))) \<and>
         (sched_inv s \<and> (\<exists>j. core_job (heap s) (c_job s) core_id = Inr j \<and> job_id j = m) \<longrightarrow>
            (\<exists>a\<in>set (qhead (jobs s)). \<exists>j. deref (heap s) a = Inr j \<and> job_id j = m) \<and>
            (\<exists>r s''. scheduler_job_finished core_id m time' s = Inr (r, s'')))"
proof (intro conjI impI)
  assume nj: "scheduler_new_job blk n time rt prio s = Inr (r, s')"
  from new_job_queue[OF nj assms] obtain ys zs where
    sh: "qhead (jobs s) = ys @ zs"
      "jobs s' = (jobs s)\<lparr>qhead := ys @ length (heap s) # zs, qsize := qsize (jobs s) + 1\<rparr>"
    by blast
  from sh assms show "qinv (jobs s')" by (simp add: qinv_def)
  from sh show "priqueue_size (jobs s') = priqueue_size (jobs s) + 1"
    by (simp add: priqueue_size_def)
  from sh show "length (qhead (jobs s')) = length (qhead (jobs s)) + 1" by simp
  from sh show "\<exists>ys zs. qhead (jobs s) = ys @ zs \<and> qhead (jobs s') = ys @ length (heap s) # zs"
    by auto
next
  assume fin: "scheduler_job_finished core_id m time' s = Inr (r', s'')"
    and pres: "\<exists>a\<in>set (qhead (jobs s)). \<exists>j. deref (heap s) a = Inr j \<and> job_id j = m"
  from job_finished_queue[OF fin assms pres] obtain k j where
    k: "k < length (qhead (jobs s))" "deref (heap s) (qhead (jobs s) ! k) = Inr j" "job_id j = m"
      "jobs s'' = removed (jobs s) k"
    by blast
  from k(1,4) assms show "qinv (jobs s'')" by (simp add: qinv_removed)
  from k(4) show "priqueue_size (jobs s'') = priqueue_size (jobs s) - 1"
    by (simp add: priqueue_size_def removed_def)
  from k(1,4) show "length (qhead (jobs s'')) + 1 = length (qhead (jobs s))"
    by (simp add: removed_def)
  from k show "\<exists>k<length (qhead (jobs s)).
               (\<exists>j. deref (heap s) (qhead (jobs s) ! k) = Inr j \<and> job_id j = m) \<and>
               qhead (jobs s'') = take k (qhead (jobs s)) @ drop (Suc k) (qhead (jobs s))"
    by (auto simp: removed_def)
next
  assume "sched_inv s \<and> (t_scheme s = PPRI \<longrightarrow> - 1 \<le> prio)"
  then show "\<exists>r s'. scheduler_new_job blk n time rt prio s = Inr (r, s')"
    by (auto intro: new_job_defined)
next
  assume a: "sched_inv s \<and> (\<exists>j. core_job (heap s) (c_job s) core_id = Inr j \<and> job_id j = m)"
  then obtain j where j: "core_job (heap s) (c_job s) core_id = Inr j" "job_id j = m" by blast
  from j(1) obtain b where b: "0 \<le> core_id" "nat core_id < length (c_job s)"
    "c_job s ! nat core_id = Some b" "deref (heap s) b = Inr j"
    by (auto simp: core_job_def core_slot_def deref_ptr_def split: if_splits option.splits)
  from a b(2) have "slot_ok (heap s) (jobs s) (c_job s) (nat core_id)"
    by (simp add: sched_inv_def inv_except_def)
  with b(3) have "b \<in> set (qhead (jobs s))" by (simp add: slot_ok_def)
  with b(4) j(2) show "\<exists>a\<in>set (qhead (jobs s)). \<exists>j. deref (heap s) a = Inr j \<and> job_id j = m"
    by blast
next
  assume a: "sched_inv s \<and> (\<exists>j. core_job (heap s) (c_job s) core_id = Inr j \<and> job_id j = m)"
  then obtain j where j: "core_job (heap s) (c_job s) core_id = Inr j" "job_id j = m" by blast
  from a have "sched_inv s" by simp
  from job_finished_defined[OF this j]
  show "\<exists>r s''. scheduler_job_finished core_id m time' s = Inr (r, s'')" .
qed

text \<open>
  PPRI on one core. Job 1 (priority 5) arrives at time 0 and gets the core. Job 2
  (priority 3) arrives at time 1 while the core is busy and the queue holds job 1: it
  takes the core from job 1, and the queue holds two jobs. When job 2 completes at time 4
  the queue holds job 1 alone, which gets the core.
\<close>

theorem queue_size_changes_witness:
  "(case scheduler_new_job blk0 1 0 9 5 (scheduler_start_up 1 PPRI) of
      Inl e \<Rightarrow> False
    | Inr (r1, s1) \<Rightarrow>
        sched_inv s1 \<and> qhead (jobs s1) = [0] \<and> priqueue_size (jobs s1) = 1 \<and>
        (case scheduler_new_job blk0 2 1 9 3 s1 of
           Inl e \<Rightarrow> False
         | Inr (r2, s2) \<Rightarrow>
             r2 = 0 \<and> sched_inv s2 \<and> qinv (jobs s2) \<and> priqueue_size (jobs s2) = 2 \<and>
             qhead (jobs s2) = [1, 0] \<and>
             (case scheduler_job_finished 0 2 4 s2 of
                Inl e \<Rightarrow> False
              | Inr (r3, s3) \<Rightarrow>
                  r3 = 1 \<and> qinv (jobs s3) \<and> priqueue_size (jobs s3) = 1 \<and>
                  qhead (jobs s3) = [0])))"
proof -
  let ?s0 = "scheduler_start_up 1 PPRI"
  obtain r1 s1 where n1: "scheduler_new_job blk0 1 0 9 5 ?s0 = Inr (r1, s1)"
    by (simp add: sched_defs priqueue_defs Let_def eval_nat_numeral)
  have ok1: "call_ok (New_job blk0 1 0 9 5) ?s0"
    by (simp add: call_ok_def sched_defs priqueue_defs)
  from n1 have st1: "step (New_job blk0 1 0 9 5) ?s0 = Inr (r1, s1)" by simp
  from step_inv[OF start_up_inv ok1 st1] have inv1: "sched_inv s1" .
  then have q1: "qinv (jobs s1)" by (simp add: sched_inv_def inv_except_def queue_ok_def)
  have f1: "qhead (jobs s1) = [0]" "priqueue_size (jobs s1) = 1" "t_scheme s1 = PPRI"
    using n1 by (auto simp add: blk0_def sched_defs priqueue_defs Let_def eval_nat_numeral)
  note at1 = queue_size_changes[OF q1, where blk=blk0 and n=2 and time=1 and rt=9 and prio=3]
  from at1 inv1 obtain r2 s2 where n2: "scheduler_new_job blk0 2 1 9 3 s1 = Inr (r2, s2)"
    by fastforce
  from at1[where r=r2 and s'=s2] n2 f1
  have g2: "qinv (jobs s2)" "priqueue_size (jobs s2) = 2" by simp_all
  have ok2: "call_ok (New_job blk0 2 1 9 3) s1"
    using n1 by (auto simp add: call_ok_def blk0_def sched_defs priqueue_defs Let_def eval_nat_numeral)
  from n2 have st2: "step (New_job blk0 2 1 9 3) s1 = Inr (r2, s2)" by simp
  from step_inv[OF inv1 ok2 st2] have inv2: "sched_inv s2" .
  have f2: "r2 = 0" "qhead (jobs s2) = [1, 0]"
    "\<exists>j. core_job (heap s2) (c_job s2) 0 = Inr j \<and> job_id j = 2"
    using n1 n2 by (auto simp add: blk0_def sched_defs priqueue_defs Let_def eval_nat_numeral)
  note at2 = queue_size_changes[OF g2(1), where core_id=0 and m=2 and time'=4]
  from at2 inv2 f2(3) obtain r3 s3 where
    pres: "\<exists>a\<in>set (qhead (jobs s2)). \<exists>j. deref (heap s2) a = Inr j \<and> job_id j = 2"
    and n3: "scheduler_job_finished 0 2 4 s2 = Inr (r3, s3)"
    by blast
  from at2[where r'=r3 and s''=s3] n3 pres g2
  have g3: "qinv (jobs s3)" "priqueue_size (jobs s3) = 1" by simp_all
  have f3: "r3 = 1" "qhead (jobs s3) = [0]"
    using n1 n2 n3 by (auto simp add: blk0_def sched_defs priqueue_defs Let_def eval_nat_numeral)
  from n1 inv1 f1 n2 f2 inv2 g2 n3 g3 f3 show ?thesis by simp
qed

end
